theory Spec2Isabelle
  imports Main
begin

text \<open>
  A shallow embedding of the database tutorial's notebooks: the raw-SQL notebook
  (\<^verbatim>\<open>sqlite3\<close>), the SQLModel notebook and the relationships notebook. The code of
  the notebooks is a client of a SQL engine and an object session; the embedding keeps
  the client code as it is written (its loops, lookups, normalisation and commits) and
  gives the calls into the engine the meaning their declarations fix: primary keys and
  the unique index reject a second row, integer keys are assigned by the store, a commit
  is one atomic transaction. Foreign keys are declared but not checked by the store.

  A text is the list of the bytes of its UTF-8 encoding, which is what the engine stores
  and compares; two texts are equal exactly when their encodings are. \<^verbatim>\<open>str.lower\<close>
  belongs to the language and not to the notebooks: the code that calls it takes it as
  the parameter \<open>lw\<close>, and a statement assumes about \<open>lw\<close> only what it says.
\<close>

section \<open>Errors raised by the notebooks' library calls\<close>

text \<open>
  The notebooks are straight-line scripts over a file system, a relational store and an
  object session. Every exception a call can raise on the paths modelled here is a value:
  \<^item> \<open>FileNotFoundError\<close>: \<^verbatim>\<open>os.remove\<close> on a path that does not exist;
  \<^item> \<open>IsADirectoryError\<close>: \<^verbatim>\<open>os.remove\<close> on a directory;
  \<^item> \<open>PermissionError\<close>: \<^verbatim>\<open>os.remove\<close> on a path the process may not unlink;
  \<^item> \<open>OperationalError\<close>: \<^verbatim>\<open>CREATE TABLE\<close> for a table name that already exists;
  \<^item> \<open>IntegrityError\<close>: a primary-key or unique-index violation reported by the store;
  \<^item> \<open>MultipleResultsFound\<close>: \<^verbatim>\<open>one_or_none()\<close> on a result with more than one row;
  \<^item> \<open>TypeError\<close>: subscripting the \<^verbatim>\<open>None\<close> that \<^verbatim>\<open>fetchone()\<close> returns on an
    empty result.
\<close>

datatype error =
    FileNotFoundError | IsADirectoryError | PermissionError
  | OperationalError | IntegrityError | MultipleResultsFound | TypeError

section \<open>The store-reset helper\<close>

text \<open>
  \<^verbatim>\<open>
  def remove_db():
      if os.path.exists("sqlmodel_database_relationships.db"):
          os.remove("sqlmodel_database_relationships.db")
  \<close>
  A path names nothing, a regular file with its contents, or a directory; the process
  may be refused the unlinking of some paths (a parent directory it cannot write, a file
  held open where that matters). \<^verbatim>\<open>os.path.exists\<close> is true of a file and of a directory
  alike. \<^verbatim>\<open>os.remove\<close> unlinks a regular file it is allowed to unlink and raises in
  every other case, leaving the file system as it was.
\<close>

datatype 'c node = File 'c | Directory

record 'c filesystem =
  entries :: "string \<rightharpoonup> 'c node"
  protected :: "string set"

definition os_path_exists :: "string \<Rightarrow> 'c filesystem \<Rightarrow> bool" where
  "os_path_exists p fs = (entries fs p \<noteq> None)"

definition os_remove :: "string \<Rightarrow> 'c filesystem \<Rightarrow> error + 'c filesystem" where
  "os_remove p fs =
     (case entries fs p of
        None \<Rightarrow> Inl FileNotFoundError
      | Some n \<Rightarrow>
          if p \<in> protected fs then Inl PermissionError
          else (case n of
                  Directory \<Rightarrow> Inl IsADirectoryError
                | File c \<Rightarrow> Inr (fs\<lparr>entries := (entries fs)(p := None)\<rparr>)))"

definition remove_db :: "string \<Rightarrow> 'c filesystem \<Rightarrow> error + 'c filesystem" where
  "remove_db db fs = (if os_path_exists db fs then os_remove db fs else Inr fs)"

definition sqlite_file_name :: string where
  "sqlite_file_name = ''sqlmodel_database_relationships.db''"

section \<open>Data model\<close>

text \<open>
  The table classes of the SQLModel notebooks. \<open>Author.id\<close> and \<open>Keyword.id\<close> are written
  \<open>author_id\<close> and \<open>kw_id\<close>; the two columns of \<open>ArticleAuthor\<close> carry the suffix \<open>_aa\<close>.
  A stored row always has its id; the \<^verbatim>\<open>Optional[int]\<close> of the class is the id of an
  object that has not been inserted yet, see \<open>kw_obj\<close> below.
\<close>

record Article =
  doi :: string
  title :: string
  publication_year :: int
  abstract :: "string option"

record Author =
  author_id :: int
  first_name :: string
  last_name :: string
  affiliation :: "string option"

record Keyword =
  kw_id :: int
  keyword :: string

record ArticleKeyword =
  article_doi :: string
  keyword_id :: int

record ArticleAuthor =
  article_doi_aa :: string
  author_id_aa :: int

text \<open>The store: one list of rows per table, in insertion order.\<close>

record store =
  article_t :: "Article list"
  author_t :: "Author list"
  keyword_t :: "Keyword list"
  articlekeyword_t :: "ArticleKeyword list"
  articleauthor_t :: "ArticleAuthor list"

definition empty_store :: store where
  "empty_store = \<lparr>article_t = [], author_t = [], keyword_t = [],
                   articlekeyword_t = [], articleauthor_t = []\<rparr>"

section \<open>Row inserts and their constraints\<close>

text \<open>
  \<open>Article.doi\<close> is the primary key of \<open>article\<close>: an INSERT whose doi is already stored
  is rejected.
\<close>

definition insert_article :: "Article \<Rightarrow> store \<Rightarrow> error + store" where
  "insert_article a st =
     (if doi a \<in> set (map doi (article_t st)) then Inl IntegrityError
      else Inr (st\<lparr>article_t := article_t st @ [a]\<rparr>))"

text \<open>
  \<open>Keyword.id\<close> is an integer primary key that the store assigns: one more than the
  largest id in the table (ids are positive), \<open>1\<close> in an empty table. \<open>Keyword.keyword\<close>
  carries a unique index: an INSERT whose text is already stored is rejected.
\<close>

definition next_id :: "int list \<Rightarrow> int" where
  "next_id ids = fold max ids 0 + 1"

definition insert_keyword :: "string \<Rightarrow> store \<Rightarrow> error + (int \<times> store)" where
  "insert_keyword kw st =
     (if kw \<in> set (map keyword (keyword_t st)) then Inl IntegrityError
      else let i = next_id (map kw_id (keyword_t st))
           in Inr (i, st\<lparr>keyword_t := keyword_t st @ [\<lparr>kw_id = i, keyword = kw\<rparr>]\<rparr>))"

text \<open>
  \<open>(article_doi, keyword_id)\<close> is the composite primary key of the association table.
  The INSERT is a plain one: a second row with the same pair is rejected. The store does
  not check that the two columns point at stored rows.
\<close>

definition insert_articlekeyword :: "ArticleKeyword \<Rightarrow> store \<Rightarrow> error + store" where
  "insert_articlekeyword l st =
     (if (article_doi l, keyword_id l)
           \<in> set (map (\<lambda>r. (article_doi r, keyword_id r)) (articlekeyword_t st))
      then Inl IntegrityError
      else Inr (st\<lparr>articlekeyword_t := articlekeyword_t st @ [l]\<rparr>))"

section \<open>Schema initialisation\<close>

text \<open>
  At the level of the schema a database is a catalogue: table name to column list and
  rows, a row being a list of SQL values.
\<close>

datatype val = VNull | VInt int | VText string

record column =
  col_name :: string
  col_type :: string
  col_not_null :: bool
  col_primary_key :: bool

record table_def =
  table_name :: string
  columns :: "column list"

record table =
  t_columns :: "column list"
  t_rows :: "val list list"

type_synonym database = "string \<rightharpoonup> table"

definition has_table :: "string \<Rightarrow> database \<Rightarrow> bool" where
  "has_table n db = (db n \<noteq> None)"

text \<open>A plain \<^verbatim>\<open>CREATE TABLE\<close> fails on a name that is taken.\<close>

definition create_table :: "table_def \<Rightarrow> database \<Rightarrow> error + database" where
  "create_table td db =
     (if has_table (table_name td) db then Inl OperationalError
      else Inr (db(table_name td \<mapsto> \<lparr>t_columns = columns td, t_rows = []\<rparr>)))"

text \<open>
  \<^verbatim>\<open>SQLModel.metadata.create_all(engine)\<close>: the echoed statements of the notebook show
  one \<^verbatim>\<open>PRAGMA main.table_info("...")\<close> per declared table, and a \<^verbatim>\<open>CREATE TABLE\<close> only
  for the tables that probe did not find.
\<close>

fun create_all :: "table_def list \<Rightarrow> database \<Rightarrow> error + database" where
  "create_all [] db = Inr db"
| "create_all (td # tds) db =
     (if has_table (table_name td) db then create_all tds db
      else case create_table td db of
             Inl e \<Rightarrow> Inl e
           | Inr db' \<Rightarrow> create_all tds db')"

text \<open>
  The raw-SQL notebook issues \<^verbatim>\<open>CREATE TABLE IF NOT EXISTS\<close>, one statement per table,
  each followed by a commit.
\<close>

definition create_table_if_not_exists :: "table_def \<Rightarrow> database \<Rightarrow> database" where
  "create_table_if_not_exists td db =
     (if has_table (table_name td) db then db
      else db(table_name td \<mapsto> \<lparr>t_columns = columns td, t_rows = []\<rparr>))"

definition row_count :: "database \<Rightarrow> string \<Rightarrow> nat option" where
  "row_count db n = map_option (\<lambda>t. length (t_rows t)) (db n)"

text \<open>The declared tables of the SQLModel notebooks, as the echoed DDL prints them.\<close>

definition col :: "string \<Rightarrow> string \<Rightarrow> bool \<Rightarrow> bool \<Rightarrow> column" where
  "col n ty nn pk = \<lparr>col_name = n, col_type = ty, col_not_null = nn, col_primary_key = pk\<rparr>"

definition article_table :: table_def where
  "article_table = \<lparr>table_name = ''article'', columns =
     [col ''doi'' ''VARCHAR'' True True, col ''title'' ''VARCHAR'' True False,
      col ''publication_year'' ''INTEGER'' True False, col ''abstract'' ''VARCHAR'' False False]\<rparr>"

definition author_table :: table_def where
  "author_table = \<lparr>table_name = ''author'', columns =
     [col ''id'' ''INTEGER'' True True, col ''first_name'' ''VARCHAR'' True False,
      col ''last_name'' ''VARCHAR'' True False, col ''affiliation'' ''VARCHAR'' False False]\<rparr>"

definition keyword_table :: table_def where
  "keyword_table = \<lparr>table_name = ''keyword'', columns =
     [col ''id'' ''INTEGER'' True True, col ''keyword'' ''VARCHAR'' True False]\<rparr>"

definition articlekeyword_table :: table_def where
  "articlekeyword_table = \<lparr>table_name = ''articlekeyword'', columns =
     [col ''article_doi'' ''VARCHAR'' True True, col ''keyword_id'' ''INTEGER'' True True]\<rparr>"

definition articleauthor_table :: table_def where
  "articleauthor_table = \<lparr>table_name = ''articleauthor'', columns =
     [col ''article_doi'' ''VARCHAR'' True True, col ''author_id'' ''INTEGER'' True True]\<rparr>"

definition metadata :: "table_def list" where
  "metadata = [article_table, author_table, keyword_table,
               articlekeyword_table, articleauthor_table]"

text \<open>The catalogue view of a typed store whose five tables exist.\<close>

definition opt_val :: "string option \<Rightarrow> val" where
  "opt_val x = (case x of None \<Rightarrow> VNull | Some s \<Rightarrow> VText s)"

definition database_of :: "store \<Rightarrow> database" where
  "database_of st =
     [''article'' \<mapsto> \<lparr>t_columns = columns article_table, t_rows =
        map (\<lambda>a. [VText (doi a), VText (title a), VInt (publication_year a), opt_val (abstract a)])
            (article_t st)\<rparr>,
      ''author'' \<mapsto> \<lparr>t_columns = columns author_table, t_rows =
        map (\<lambda>a. [VInt (author_id a), VText (first_name a), VText (last_name a),
                   opt_val (affiliation a)]) (author_t st)\<rparr>,
      ''keyword'' \<mapsto> \<lparr>t_columns = columns keyword_table, t_rows =
        map (\<lambda>k. [VInt (kw_id k), VText (keyword k)]) (keyword_t st)\<rparr>,
      ''articlekeyword'' \<mapsto> \<lparr>t_columns = columns articlekeyword_table, t_rows =
        map (\<lambda>l. [VText (article_doi l), VInt (keyword_id l)]) (articlekeyword_t st)\<rparr>,
      ''articleauthor'' \<mapsto> \<lparr>t_columns = columns articleauthor_table, t_rows =
        map (\<lambda>l. [VText (article_doi_aa l), VInt (author_id_aa l)]) (articleauthor_t st)\<rparr>]"

section \<open>Input records\<close>

text \<open>
  One element of \<^verbatim>\<open>json.load(f)["itemHits"]\<close>, after \<^verbatim>\<open>paper["item"]\<close>: the fields the
  notebooks read, the author list and the publication date they do not read.
\<close>

record author_json =
  firstName :: string
  lastName :: string
  institutions :: "string list"

record item =
  item_doi :: string
  item_title :: string
  item_abstract :: "string option"
  item_keywords :: "string list"
  item_authors :: "author_json list"
  item_publishedDate :: string

text \<open>
  An instance for the parameter \<open>lw\<close>, used where a statement is evaluated on concrete
  records: on a text of ASCII characters \<^verbatim>\<open>str.lower()\<close> moves the letters A to Z to
  a to z and keeps every other character, and the concrete records below are ASCII.
\<close>

definition lower_char :: "char \<Rightarrow> char" where
  "lower_char c =
     (let n = (of_char c :: nat) in if 65 \<le> n \<and> n \<le> 90 then char_of (n + 32) else c)"

definition lower_ascii :: "string \<Rightarrow> string" where
  "lower_ascii s = map lower_char s"

section \<open>The batch loader of the relationships notebook\<close>

text \<open>
  \<^verbatim>\<open>
  for paper in data:
      paper_data = paper["item"]
      keywords = []
      for keyword in paper_data["keywords"]:
          keyword = keyword.lower()
          stmt = select(Keyword).where(Keyword.keyword == keyword)
          result = session.exec(stmt).one_or_none()
          if not result:
              keyword_obj = Keyword(keyword=keyword.lower())
          else:
              keyword_obj = result
          keywords.append(keyword_obj)
      article = Article(doi=paper_data["doi"], title=paper_data["title"],
                        publication_year=2024, abstract=paper_data["abstract"],
                        keywords=keywords)
      session.add(article)
      session.commit()
  \<close>
  A keyword object is either a row the select returned or a new object with no id that
  no session holds yet. The select reads the store; a new object is invisible to it until
  \<^verbatim>\<open>session.add(article)\<close> cascades to the article's keywords, after the inner loop.
\<close>

datatype kw_obj = Persistent Keyword | Pending string

definition one_or_none :: "'a list \<Rightarrow> error + 'a option" where
  "one_or_none rows =
     (case rows of [] \<Rightarrow> Inr None | [r] \<Rightarrow> Inr (Some r) | _ \<Rightarrow> Inl MultipleResultsFound)"

definition select_keyword :: "string \<Rightarrow> store \<Rightarrow> Keyword list" where
  "select_keyword kw st = filter (\<lambda>r. keyword r = kw) (keyword_t st)"

fun lookup_keywords ::
  "(string \<Rightarrow> string) \<Rightarrow> string list \<Rightarrow> store \<Rightarrow> error + kw_obj list" where
  "lookup_keywords lw [] st = Inr []"
| "lookup_keywords lw (k # ks) st =
     (let kw = lw k in
      case one_or_none (select_keyword kw st) of
        Inl e \<Rightarrow> Inl e
      | Inr result \<Rightarrow>
          (let keyword_obj = (case result of None \<Rightarrow> Pending (lw kw)
                                             | Some r \<Rightarrow> Persistent r)
           in case lookup_keywords lw ks st of
                Inl e \<Rightarrow> Inl e
              | Inr keywords \<Rightarrow> Inr (keyword_obj # keywords)))"

text \<open>
  The commit flushes one transaction: the article row, one keyword row per pending
  object in list order (each gets its id from the store), then one association row per
  element of the list. Any violation rolls the whole transaction back.
\<close>

fun save_keywords :: "kw_obj list \<Rightarrow> store \<Rightarrow> error + (int list \<times> store)" where
  "save_keywords [] st = Inr ([], st)"
| "save_keywords (Persistent r # objs) st =
     (case save_keywords objs st of
        Inl e \<Rightarrow> Inl e
      | Inr (ids, st') \<Rightarrow> Inr (kw_id r # ids, st'))"
| "save_keywords (Pending kw # objs) st =
     (case insert_keyword kw st of
        Inl e \<Rightarrow> Inl e
      | Inr (i, st1) \<Rightarrow>
          (case save_keywords objs st1 of
             Inl e \<Rightarrow> Inl e
           | Inr (ids, st') \<Rightarrow> Inr (i # ids, st')))"

fun link_keywords :: "string \<Rightarrow> int list \<Rightarrow> store \<Rightarrow> error + store" where
  "link_keywords d [] st = Inr st"
| "link_keywords d (i # ids) st =
     (case insert_articlekeyword \<lparr>article_doi = d, keyword_id = i\<rparr> st of
        Inl e \<Rightarrow> Inl e
      | Inr st' \<Rightarrow> link_keywords d ids st')"

definition session_add_commit :: "Article \<Rightarrow> kw_obj list \<Rightarrow> store \<Rightarrow> error + store" where
  "session_add_commit a keywords st =
     (case insert_article a st of
        Inl e \<Rightarrow> Inl e
      | Inr st1 \<Rightarrow>
          (case save_keywords keywords st1 of
             Inl e \<Rightarrow> Inl e
           | Inr (ids, st2) \<Rightarrow> link_keywords (doi a) ids st2))"

definition new_article :: "item \<Rightarrow> Article" where
  "new_article paper_data =
     \<lparr>doi = item_doi paper_data, title = item_title paper_data,
      publication_year = 2024, abstract = item_abstract paper_data\<rparr>"

definition load_paper :: "(string \<Rightarrow> string) \<Rightarrow> item \<Rightarrow> store \<Rightarrow> error + store" where
  "load_paper lw paper_data st =
     (case lookup_keywords lw (item_keywords paper_data) st of
        Inl e \<Rightarrow> Inl e
      | Inr keywords \<Rightarrow> session_add_commit (new_article paper_data) keywords st)"

text \<open>
  The outer loop. An exception leaves the loop; the store then holds what the last
  successful commit left. \<open>load_trace\<close> lists the persistent store at the start and
  after every commit: a run that stops at any moment leaves one of these behind.
\<close>

fun load :: "(string \<Rightarrow> string) \<Rightarrow> item list \<Rightarrow> store \<Rightarrow> error option \<times> store" where
  "load lw [] st = (None, st)"
| "load lw (p # ps) st =
     (case load_paper lw p st of
        Inl e \<Rightarrow> (Some e, st)
      | Inr st' \<Rightarrow> load lw ps st')"

fun load_trace :: "(string \<Rightarrow> string) \<Rightarrow> item list \<Rightarrow> store \<Rightarrow> store list" where
  "load_trace lw [] st = [st]"
| "load_trace lw (p # ps) st =
     st # (case load_paper lw p st of Inl e \<Rightarrow> [] | Inr st' \<Rightarrow> load_trace lw ps st')"

section \<open>The query of the relationships notebook\<close>








text \<open>
  The spec's words, for comparison: the text contains the given substring, character
  for character.
\<close>

fun startswith :: "string \<Rightarrow> string \<Rightarrow> bool" where
  "startswith s [] = True"
| "startswith [] (c # cs) = False"
| "startswith (x # xs) (c # cs) = (x = c \<and> startswith xs cs)"

fun has_substring :: "string \<Rightarrow> string \<Rightarrow> bool" where
  "has_substring [] sub = (sub = [])"
| "has_substring (x # xs) sub = (startswith (x # xs) sub \<or> has_substring xs sub)"






section \<open>The insert cell of the SQLModel notebook\<close>

text \<open>
  \<^verbatim>\<open>
  first_article = Article(doi=paper_data["doi"], title=paper_data["title"],
                          publication_year=2024, abstract=paper_data["abstract"])
  session.add(first_article)
  session.commit()
  for keyword in paper_data["keywords"]:
      keyword_obj = Keyword(keyword=keyword.lower())
      session.add(keyword_obj)
      session.commit()
  \<close>
  One commit per row, no lookup and no association row.
\<close>

fun add_keywords ::
  "(string \<Rightarrow> string) \<Rightarrow> string list \<Rightarrow> store \<Rightarrow> error option \<times> store" where
  "add_keywords lw [] st = (None, st)"
| "add_keywords lw (k # ks) st =
     (case insert_keyword (lw k) st of
        Inl e \<Rightarrow> (Some e, st)
      | Inr (i, st') \<Rightarrow> add_keywords lw ks st')"

definition add_first_article ::
  "(string \<Rightarrow> string) \<Rightarrow> item \<Rightarrow> store \<Rightarrow> error option \<times> store" where
  "add_first_article lw paper_data st =
     (case insert_article (new_article paper_data) st of
        Inl e \<Rightarrow> (Some e, st)
      | Inr st' \<Rightarrow> add_keywords lw (item_keywords paper_data) st')"

section \<open>The association loop of the raw-SQL notebook\<close>

text \<open>
  \<^verbatim>\<open>
  query_statement = """SELECT keyword_id from keywords WHERE keywords.keyword == ?"""
  associative_statement =
      """INSERT INTO article_keywords (article_id, keyword_id) VALUES (?, ?)"""
  for keyword in recent_paper["keywords"]:
      cursor.execute(query_statement, (keyword,) )
      result = cursor.fetchone()[0]
      cursor.execute(associative_statement, (paper_id, result))
  \<close>
  The keyword is looked up as it is spelt; \<^verbatim>\<open>None[0]\<close> raises when no row matches.
\<close>

text \<open>
  Modelled from the spec: the tables \<open>keywords\<close> and \<open>article_keywords\<close>, whose
  \<^verbatim>\<open>CREATE TABLE\<close> statements that notebook leaves as an exercise. They have the shape
  of \<open>keyword\<close> and \<open>articlekeyword\<close>: an integer key and the keyword text; a composite
  primary key of article and keyword id, as the sibling table \<open>article_authors\<close> declares
  it. \<open>fetchone\<close> returns the first row of the result, or nothing.
\<close>

definition fetchone :: "'a list \<Rightarrow> 'a option" where
  "fetchone rows = (case rows of [] \<Rightarrow> None | r # _ \<Rightarrow> Some r)"

fun associate_keywords :: "string \<Rightarrow> string list \<Rightarrow> store \<Rightarrow> error + store" where
  "associate_keywords paper_id [] st = Inr st"
| "associate_keywords paper_id (kw # kws) st =
     (case fetchone (map kw_id (select_keyword kw st)) of
        None \<Rightarrow> Inl TypeError
      | Some result \<Rightarrow>
          (case insert_articlekeyword \<lparr>article_doi = paper_id, keyword_id = result\<rparr> st of
             Inl e \<Rightarrow> Inl e
           | Inr st' \<Rightarrow> associate_keywords paper_id kws st'))"

section \<open>Properties of a store\<close>

text \<open>
  Referential integrity: every association row names a stored article and a stored
  keyword (or author). Link uniqueness: no composite key is stored twice. Key uniqueness:
  no doi, keyword id or keyword text is stored twice.
\<close>

definition references_ok :: "store \<Rightarrow> bool" where
  "references_ok st \<longleftrightarrow>
     (\<forall>l \<in> set (articlekeyword_t st).
        article_doi l \<in> set (map doi (article_t st)) \<and>
        keyword_id l \<in> set (map kw_id (keyword_t st))) \<and>
     (\<forall>l \<in> set (articleauthor_t st).
        article_doi_aa l \<in> set (map doi (article_t st)) \<and>
        author_id_aa l \<in> set (map author_id (author_t st)))"

definition links_unique :: "store \<Rightarrow> bool" where
  "links_unique st \<longleftrightarrow>
     distinct (map (\<lambda>r. (article_doi r, keyword_id r)) (articlekeyword_t st)) \<and>
     distinct (map (\<lambda>r. (article_doi_aa r, author_id_aa r)) (articleauthor_t st))"

definition keys_unique :: "store \<Rightarrow> bool" where
  "keys_unique st \<longleftrightarrow>
     distinct (map doi (article_t st)) \<and>
     distinct (map kw_id (keyword_t st)) \<and>
     distinct (map keyword (keyword_t st))"

definition keywords_lowered :: "(string \<Rightarrow> string) \<Rightarrow> store \<Rightarrow> bool" where
  "keywords_lowered lw st \<longleftrightarrow> (\<forall>k \<in> set (keyword_t st). lw (keyword k) = keyword k)"

text \<open>
  \<open>linked st d i\<close>: an association row joins the doi \<open>d\<close> to the keyword id \<open>i\<close>.
  \<open>tags st d\<close>: the keyword texts associated with \<open>d\<close> that way.
\<close>

definition linked :: "store \<Rightarrow> string \<Rightarrow> int \<Rightarrow> bool" where
  "linked st d i \<longleftrightarrow> (d, i) \<in> set (map (\<lambda>l. (article_doi l, keyword_id l)) (articlekeyword_t st))"


text \<open>
  The stores the SQLModel notebooks can produce: the empty store after schema
  initialisation, then any successful commit of the loader or of the insert cell.
\<close>

inductive reachable :: "(string \<Rightarrow> string) \<Rightarrow> store \<Rightarrow> bool" for lw where
  reachable_empty: "reachable lw empty_store"
| reachable_load_paper:
    "reachable lw st \<Longrightarrow> load_paper lw p st = Inr st' \<Longrightarrow> reachable lw st'"
| reachable_insert_article:
    "reachable lw st \<Longrightarrow> insert_article (new_article p) st = Inr st' \<Longrightarrow> reachable lw st'"
| reachable_insert_keyword:
    "reachable lw st \<Longrightarrow> insert_keyword (lw k) st = Inr (i, st') \<Longrightarrow> reachable lw st'"

text \<open>The text a keyword object carries.\<close>

fun kw_text :: "kw_obj \<Rightarrow> string" where
  "kw_text (Persistent r) = keyword r"
| "kw_text (Pending kw) = kw"

section \<open>Example records\<close>

text \<open>
  Two input records and the store the loader builds from them; the concrete instances
  below are evaluated on these.
\<close>

definition paper_a :: item where
  "paper_a = \<lparr>item_doi = ''10.26434/chemrxiv-2024-jjdsq'',
     item_title = ''Latin American Natural Product Database (LANaPDB): an update '',
     item_abstract = Some ''Natural product (NP) databases are crucial tools'',
     item_keywords = [''Chemoinformatics'', ''Drug Discovery''],
     item_authors = [\<lparr>firstName = ''Dimitri'', lastName = ''Abrahamsson'',
                       institutions = [''New York University'']\<rparr>],
     item_publishedDate = ''2023-08-26T12:39:13.255Z''\<rparr>"

definition paper_b :: item where
  "paper_b = \<lparr>item_doi = ''10.26434/chemrxiv-2024-hjzcr'',
     item_title = ''Modeling the ionization efficiency of small molecules'',
     item_abstract = None,
     item_keywords = [''Database''],
     item_authors = [],
     item_publishedDate = ''2024-08-26T12:39:13.255Z''\<rparr>"

definition example_store :: store where
  "example_store = snd (load lower_ascii [paper_a, paper_b] empty_store)"

text \<open>The example store after one more association row, paper a to keyword 3.\<close>

definition example_linked :: store where
  "example_linked = example_store\<lparr>articlekeyword_t :=
     articlekeyword_t example_store @ [\<lparr>article_doi = item_doi paper_a, keyword_id = 3\<rparr>]\<rparr>"


section \<open>The store-reset helper\<close>

text \<open>
  Claim C10, as amended. When the path names nothing, \<open>remove_db\<close> removes nothing and
  raises nothing. When it names a regular file the process may unlink, the file is
  removed and nothing else changes. A directory at the path, or a path the process may
  not unlink, makes \<^verbatim>\<open>os.remove\<close> raise, and the error leaves \<open>remove_db\<close>. Whenever
  \<open>remove_db\<close> returns, the path names nothing, every other path is as before, and a
  second call changes nothing. The guard rules out \<open>FileNotFoundError\<close> only.
\<close>

theorem remove_db_regular_file:
  "(entries fs db = None \<longrightarrow> remove_db db fs = Inr fs)
   \<and> ((\<exists>c. entries fs db = Some (File c)) \<and> db \<notin> protected fs \<longrightarrow>
        remove_db db fs = Inr (fs\<lparr>entries := (entries fs)(db := None)\<rparr>))
   \<and> (entries fs db = Some Directory \<and> db \<notin> protected fs \<longrightarrow>
        remove_db db fs = Inl IsADirectoryError)
   \<and> (entries fs db \<noteq> None \<and> db \<in> protected fs \<longrightarrow>
        remove_db db fs = Inl PermissionError)
   \<and> (\<forall>fs'. remove_db db fs = Inr fs' \<longrightarrow>
          entries fs' db = None \<and> (\<forall>p. p \<noteq> db \<longrightarrow> entries fs' p = entries fs p) \<and>
          protected fs' = protected fs \<and> remove_db db fs' = Inr fs')
   \<and> remove_db db fs \<noteq> Inl FileNotFoundError"
proof -
  have 1: "entries fs db = None \<longrightarrow> remove_db db fs = Inr fs"
    by (simp add: remove_db_def os_path_exists_def)
  have 2: "(\<exists>c. entries fs db = Some (File c)) \<and> db \<notin> protected fs \<longrightarrow>
        remove_db db fs = Inr (fs\<lparr>entries := (entries fs)(db := None)\<rparr>)"
    by (auto simp: remove_db_def os_path_exists_def os_remove_def)
  have 3: "entries fs db = Some Directory \<and> db \<notin> protected fs \<longrightarrow>
        remove_db db fs = Inl IsADirectoryError"
    by (simp add: remove_db_def os_path_exists_def os_remove_def)
  have 4: "entries fs db \<noteq> None \<and> db \<in> protected fs \<longrightarrow>
        remove_db db fs = Inl PermissionError"
    by (auto simp: remove_db_def os_path_exists_def os_remove_def)
  have 5: "\<forall>fs'. remove_db db fs = Inr fs' \<longrightarrow>
          entries fs' db = None \<and> (\<forall>p. p \<noteq> db \<longrightarrow> entries fs' p = entries fs p) \<and>
          protected fs' = protected fs \<and> remove_db db fs' = Inr fs'"
    by (auto simp: remove_db_def os_path_exists_def os_remove_def
        split: option.splits node.splits if_splits)
  have 6: "remove_db db fs \<noteq> Inl FileNotFoundError"
    by (auto simp: remove_db_def os_path_exists_def os_remove_def
        split: option.splits node.splits if_splits)
  from 1 2 3 4 5 6 show ?thesis by blast
qed

theorem remove_db_regular_file_witness:
  "remove_db sqlite_file_name
     \<lparr>entries = [sqlite_file_name \<mapsto> File example_store, ''data'' \<mapsto> Directory],
      protected = {}\<rparr>
   = Inr \<lparr>entries = [''data'' \<mapsto> Directory], protected = {}\<rparr>
   \<and> remove_db sqlite_file_name
        \<lparr>entries = [''data'' \<mapsto> (Directory :: store node)], protected = {}\<rparr>
       = Inr \<lparr>entries = [''data'' \<mapsto> Directory], protected = {}\<rparr>
   \<and> remove_db sqlite_file_name
        \<lparr>entries = [sqlite_file_name \<mapsto> File example_store],
         protected = {sqlite_file_name}\<rparr>
       = Inl PermissionError"
proof -
  let ?fs = "\<lparr>entries = [sqlite_file_name \<mapsto> File example_store, ''data'' \<mapsto> Directory],
      protected = ({} :: string set)\<rparr>"
  let ?fs' = "\<lparr>entries = [''data'' \<mapsto> Directory] :: string \<rightharpoonup> store node,
      protected = ({} :: string set)\<rparr>"
  let ?fp = "\<lparr>entries = [sqlite_file_name \<mapsto> File example_store],
         protected = {sqlite_file_name}\<rparr>"
  have e: "(entries ?fs)(sqlite_file_name := None) = [''data'' \<mapsto> Directory]"
    by (auto simp: sqlite_file_name_def)
  have n: "entries ?fs' sqlite_file_name = None" by (simp add: sqlite_file_name_def)
  have f: "(\<exists>c. entries ?fs sqlite_file_name = Some (File c)) \<and>
      sqlite_file_name \<notin> protected ?fs"
    by (simp add: sqlite_file_name_def)
  from remove_db_regular_file [of ?fs sqlite_file_name] f
  have "remove_db sqlite_file_name ?fs =
      Inr (?fs\<lparr>entries := (entries ?fs)(sqlite_file_name := None)\<rparr>)" by blast
  also have "?fs\<lparr>entries := (entries ?fs)(sqlite_file_name := None)\<rparr> = ?fs'"
    using e by simp
  finally have a: "remove_db sqlite_file_name ?fs = Inr ?fs'" .
  from remove_db_regular_file [of ?fs' sqlite_file_name] n
  have b: "remove_db sqlite_file_name ?fs' = Inr ?fs'" by blast
  have g: "entries ?fp sqlite_file_name \<noteq> None \<and> sqlite_file_name \<in> protected ?fp"
    by simp
  from remove_db_regular_file [of ?fp sqlite_file_name] g
  have c: "remove_db sqlite_file_name ?fp = Inl PermissionError" by blast
  from a b c show ?thesis by blast
qed

text \<open>
  The claim as it was stated has \<open>remove_db\<close> total, with the path absent after any
  call. With a directory at the path, \<^verbatim>\<open>os.path.exists\<close> is true, \<^verbatim>\<open>os.remove\<close> raises,
  and the path is still there.
\<close>

theorem remove_db_directory_raises:
  "remove_db sqlite_file_name \<lparr>entries = [sqlite_file_name \<mapsto> Directory], protected = {}\<rparr>
     = Inl IsADirectoryError
   \<and> os_path_exists sqlite_file_name
        \<lparr>entries = [sqlite_file_name \<mapsto> (Directory :: store node)], protected = {}\<rparr>"
  by (simp add: remove_db_def os_path_exists_def os_remove_def)

section \<open>Schema initialisation is idempotent\<close>

lemma create_all_keeps: "create_all md db = Inr db' \<Longrightarrow> db n = Some t \<Longrightarrow> db' n = Some t"
proof (induction md arbitrary: db)
  case Nil
  then show ?case by simp
next
  case (Cons x md)
  show ?case
  proof (cases "has_table (table_name x) db")
    case True
    with Cons show ?thesis by simp
  next
    case False
    let ?db1 = "db(table_name x \<mapsto> \<lparr>t_columns = columns x, t_rows = []\<rparr>)"
    from False Cons.prems have r: "create_all md ?db1 = Inr db'" by (simp add: create_table_def)
    from False Cons.prems(2) have "n \<noteq> table_name x" by (auto simp: has_table_def)
    with Cons.prems(2) have "?db1 n = Some t" by simp
    from Cons.IH [OF r this] show ?thesis .
  qed
qed

lemma create_all_total: "\<exists>db'. create_all md db = Inr db'"
  by (induction md arbitrary: db) (auto simp: create_table_def)

lemma create_all_has:
  "create_all md db = Inr db' \<Longrightarrow> td \<in> set md \<Longrightarrow> has_table (table_name td) db'"
proof (induction md arbitrary: db)
  case Nil
  then show ?case by simp
next
  case (Cons x md)
  let ?db1 = "if has_table (table_name x) db then db
              else db(table_name x \<mapsto> \<lparr>t_columns = columns x, t_rows = []\<rparr>)"
  from Cons.prems(1) have r: "create_all md ?db1 = Inr db'"
    by (simp add: create_table_def split: if_splits)
  show ?case
  proof (cases "td = x")
    case True
    obtain t where "?db1 (table_name x) = Some t"
      by (cases "db (table_name x)") (auto simp: has_table_def)
    from create_all_keeps [OF r this] True show ?thesis by (simp add: has_table_def)
  next
    case False
    with Cons.prems(2) Cons.IH [OF r] show ?thesis by simp
  qed
qed

lemma create_all_noop:
  "\<forall>td \<in> set md. has_table (table_name td) db \<Longrightarrow> create_all md db = Inr db"
  by (induction md) auto

lemma example_store_eq:
  "example_store =
     \<lparr>article_t = [new_article paper_a, new_article paper_b], author_t = [],
      keyword_t = [\<lparr>kw_id = 1, keyword = ''chemoinformatics''\<rparr>,
                   \<lparr>kw_id = 2, keyword = ''drug discovery''\<rparr>,
                   \<lparr>kw_id = 3, keyword = ''database''\<rparr>],
      articlekeyword_t = [\<lparr>article_doi = item_doi paper_a, keyword_id = 1\<rparr>,
                          \<lparr>article_doi = item_doi paper_a, keyword_id = 2\<rparr>,
                          \<lparr>article_doi = item_doi paper_b, keyword_id = 3\<rparr>],
      articleauthor_t = []\<rparr>"
  by code_simp

text \<open>
  Claim C6. \<open>create_all\<close> never raises; every table that existed keeps its columns and
  its rows, so its row count; applying it again to its own result changes nothing; on a
  store whose declared tables all exist it is the identity. The same holds for one
  \<^verbatim>\<open>CREATE TABLE IF NOT EXISTS\<close> of the raw-SQL notebook.
\<close>

theorem create_all_idempotent:
  "(\<exists>db'. create_all md db = Inr db'
          \<and> (\<forall>n t. db n = Some t \<longrightarrow> db' n = Some t)
          \<and> (\<forall>n. has_table n db \<longrightarrow> row_count db' n = row_count db n)
          \<and> create_all md db' = Inr db')
   \<and> ((\<forall>td \<in> set md. has_table (table_name td) db) \<longrightarrow> create_all md db = Inr db)
   \<and> (\<forall>n t. db n = Some t \<longrightarrow> create_table_if_not_exists td db n = Some t)
   \<and> create_table_if_not_exists td (create_table_if_not_exists td db)
       = create_table_if_not_exists td db"
proof -
  obtain db' where r: "create_all md db = Inr db'" using create_all_total by blast
  have k: "\<forall>n t. db n = Some t \<longrightarrow> db' n = Some t" using create_all_keeps [OF r] by blast
  have c: "\<forall>n. has_table n db \<longrightarrow> row_count db' n = row_count db n"
    using k by (auto simp: has_table_def row_count_def)
  have "\<forall>td \<in> set md. has_table (table_name td) db'" using create_all_has [OF r] by blast
  then have i: "create_all md db' = Inr db'" by (rule create_all_noop)
  have n: "(\<forall>td \<in> set md. has_table (table_name td) db) \<longrightarrow> create_all md db = Inr db"
    using create_all_noop by blast
  have s: "\<forall>n t. db n = Some t \<longrightarrow> create_table_if_not_exists td db n = Some t"
    by (auto simp: create_table_if_not_exists_def has_table_def)
  have s2: "create_table_if_not_exists td (create_table_if_not_exists td db)
       = create_table_if_not_exists td db"
    by (simp add: create_table_if_not_exists_def has_table_def)
  from r k c i n s s2 show ?thesis by blast
qed

theorem create_all_idempotent_witness:
  "create_all metadata (database_of example_store) = Inr (database_of example_store)
   \<and> row_count (database_of example_store) ''article'' = Some 2
   \<and> row_count (database_of example_store) ''keyword'' = Some 3
   \<and> row_count (database_of example_store) ''articlekeyword'' = Some 3"
proof -
  have h: "\<forall>td \<in> set metadata. has_table (table_name td) (database_of example_store)"
    by (simp add: metadata_def has_table_def database_of_def article_table_def
        author_table_def keyword_table_def articlekeyword_table_def articleauthor_table_def)
  have c: "row_count (database_of example_store) ''article'' = Some 2
   \<and> row_count (database_of example_store) ''keyword'' = Some 3
   \<and> row_count (database_of example_store) ''articlekeyword'' = Some 3"
    by code_simp
  from h c create_all_idempotent [of metadata "database_of example_store"]
  show ?thesis by blast
qed

section \<open>Generated ids and single-row inserts\<close>

lemma fold_max_ge: "(a::int) \<le> fold max ids a"
proof (induction ids arbitrary: a)
  case Nil show ?case by simp
next
  case (Cons x xs)
  have "a \<le> max x a" by simp
  also have "\<dots> \<le> fold max xs (max x a)" by (rule Cons.IH)
  finally show ?case by simp
qed

lemma fold_max_mem: "(x::int) \<in> set ids \<Longrightarrow> x \<le> fold max ids a"
proof (induction ids arbitrary: a)
  case Nil then show ?case by simp
next
  case (Cons y ys)
  show ?case
  proof (cases "x = y")
    case True
    have "x \<le> max y a" using True by simp
    also have "\<dots> \<le> fold max ys (max y a)" by (rule fold_max_ge)
    finally show ?thesis by simp
  next
    case False
    with Cons.prems have "x \<in> set ys" by simp
    from Cons.IH [OF this] show ?thesis by simp
  qed
qed

lemma next_id_fresh: "next_id ids \<notin> set ids"
proof
  assume "next_id ids \<in> set ids"
  from fold_max_mem [OF this, of 0] show False by (simp add: next_id_def)
qed

lemma insert_article_Inr:
  "insert_article a st = Inr st' \<longleftrightarrow>
     doi a \<notin> set (map doi (article_t st)) \<and> st' = st\<lparr>article_t := article_t st @ [a]\<rparr>"
  by (auto simp: insert_article_def)

lemma insert_keyword_Inr:
  "insert_keyword kw st = Inr (i, st') \<longleftrightarrow>
     kw \<notin> set (map keyword (keyword_t st)) \<and> i = next_id (map kw_id (keyword_t st)) \<and>
     st' = st\<lparr>keyword_t := keyword_t st @ [\<lparr>kw_id = i, keyword = kw\<rparr>]\<rparr>"
  by (auto simp: insert_keyword_def Let_def)

lemma insert_articlekeyword_Inr:
  "insert_articlekeyword l st = Inr st' \<longleftrightarrow>
     (article_doi l, keyword_id l) \<notin> set (map (\<lambda>r. (article_doi r, keyword_id r)) (articlekeyword_t st))
     \<and> st' = st\<lparr>articlekeyword_t := articlekeyword_t st @ [l]\<rparr>"
  by (auto simp: insert_articlekeyword_def)

text \<open>What the flush of the keyword objects leaves alone and what it appends.\<close>

lemma save_keywords_frame:
  "save_keywords objs st = Inr (ids, st') \<Longrightarrow>
     article_t st' = article_t st \<and> author_t st' = author_t st \<and>
     articlekeyword_t st' = articlekeyword_t st \<and> articleauthor_t st' = articleauthor_t st"
proof (induction objs st arbitrary: ids st' rule: save_keywords.induct)
  case (1 st) then show ?case by simp
next
  case (2 r objs st)
  from "2.prems"(1) obtain ids' where b: "save_keywords objs st = Inr (ids', st')"
    by (auto split: sum.splits prod.splits)
  from "2.IH" [OF b] show ?case .
next
  case (3 kw objs st)
  from "3.prems" obtain i st1 ids' where
    a: "insert_keyword kw st = Inr (i, st1)" and b: "save_keywords objs st1 = Inr (ids', st')"
    by (auto split: sum.splits prod.splits)
  from "3.IH" [OF a refl b] a show ?case by (auto simp: insert_keyword_Inr)
qed

lemma save_keywords_appends:
  "save_keywords objs st = Inr (ids, st') \<Longrightarrow> \<exists>news. keyword_t st' = keyword_t st @ news"
proof (induction objs st arbitrary: ids st' rule: save_keywords.induct)
  case (1 st) then show ?case by simp
next
  case (2 r objs st)
  from "2.prems"(1) obtain ids' where b: "save_keywords objs st = Inr (ids', st')"
    by (auto split: sum.splits prod.splits)
  from "2.IH" [OF b] show ?case .
next
  case (3 kw objs st)
  from "3.prems" obtain i st1 ids' where
    a: "insert_keyword kw st = Inr (i, st1)" and b: "save_keywords objs st1 = Inr (ids', st')"
    by (auto split: sum.splits prod.splits)
  from "3.IH" [OF a refl b] obtain news where "keyword_t st' = keyword_t st1 @ news" by blast
  with a show ?case by (auto simp: insert_keyword_Inr)
qed

lemma save_keywords_ids_distinct:
  "save_keywords objs st = Inr (ids, st') \<Longrightarrow> distinct (map kw_id (keyword_t st)) \<Longrightarrow>
     distinct (map kw_id (keyword_t st'))"
proof (induction objs st arbitrary: ids st' rule: save_keywords.induct)
  case (1 st) then show ?case by simp
next
  case (2 r objs st)
  from "2.prems"(1) obtain ids' where b: "save_keywords objs st = Inr (ids', st')"
    by (auto split: sum.splits prod.splits)
  from "2.IH" [OF b "2.prems"(2)] show ?case .
next
  case (3 kw objs st)
  from "3.prems" obtain i st1 ids' where
    a: "insert_keyword kw st = Inr (i, st1)" and b: "save_keywords objs st1 = Inr (ids', st')"
    by (auto split: sum.splits prod.splits)
  from a "3.prems"(2) have "distinct (map kw_id (keyword_t st1))"
    using next_id_fresh [of "map kw_id (keyword_t st)"] by (auto simp: insert_keyword_Inr)
  from "3.IH" [OF a refl b this] show ?case .
qed

lemma save_keywords_texts_distinct:
  "save_keywords objs st = Inr (ids, st') \<Longrightarrow> distinct (map keyword (keyword_t st)) \<Longrightarrow>
     distinct (map keyword (keyword_t st'))"
proof (induction objs st arbitrary: ids st' rule: save_keywords.induct)
  case (1 st) then show ?case by simp
next
  case (2 r objs st)
  from "2.prems"(1) obtain ids' where b: "save_keywords objs st = Inr (ids', st')"
    by (auto split: sum.splits prod.splits)
  from "2.IH" [OF b "2.prems"(2)] show ?case .
next
  case (3 kw objs st)
  from "3.prems" obtain i st1 ids' where
    a: "insert_keyword kw st = Inr (i, st1)" and b: "save_keywords objs st1 = Inr (ids', st')"
    by (auto split: sum.splits prod.splits)
  from a "3.prems"(2) have "distinct (map keyword (keyword_t st1))"
    by (auto simp: insert_keyword_Inr)
  from "3.IH" [OF a refl b this] show ?case .
qed

text \<open>Each object of the list gets the id of a stored row that carries its text.\<close>

lemma save_keywords_ids:
  "save_keywords objs st = Inr (ids, st') \<Longrightarrow>
   \<forall>r. Persistent r \<in> set objs \<longrightarrow> r \<in> set (keyword_t st) \<Longrightarrow>
   list_all2 (\<lambda>obj i. \<exists>k \<in> set (keyword_t st'). kw_id k = i \<and> keyword k = kw_text obj) objs ids"
proof (induction objs st arbitrary: ids st' rule: save_keywords.induct)
  case (1 st) then show ?case by simp
next
  case (2 r objs st)
  from "2.prems"(1) obtain ids' where
    b: "save_keywords objs st = Inr (ids', st')" and i: "ids = kw_id r # ids'"
    by (auto split: sum.splits prod.splits)
  from "2.prems"(2) have p: "\<forall>r. Persistent r \<in> set objs \<longrightarrow> r \<in> set (keyword_t st)" by simp
  from "2.prems"(2) have "r \<in> set (keyword_t st)" by simp
  moreover from save_keywords_appends [OF b] obtain news where "keyword_t st' = keyword_t st @ news" by blast
  ultimately have "r \<in> set (keyword_t st')" by simp
  then have "\<exists>k \<in> set (keyword_t st'). kw_id k = kw_id r \<and> keyword k = keyword r" by blast
  with "2.IH" [OF b p] i show ?case by simp
next
  case (3 kw objs st)
  from "3.prems"(1) obtain i st1 ids' where
    a: "insert_keyword kw st = Inr (i, st1)" and b: "save_keywords objs st1 = Inr (ids', st')"
    and i: "ids = i # ids'"
    by (auto split: sum.splits prod.splits)
  from a have k1: "keyword_t st1 = keyword_t st @ [\<lparr>kw_id = i, keyword = kw\<rparr>]"
    by (auto simp: insert_keyword_Inr)
  with "3.prems"(2) have p: "\<forall>r. Persistent r \<in> set objs \<longrightarrow> r \<in> set (keyword_t st1)" by simp
  from save_keywords_appends [OF b] obtain news where "keyword_t st' = keyword_t st1 @ news" by blast
  with k1 have "\<lparr>kw_id = i, keyword = kw\<rparr> \<in> set (keyword_t st')" by simp
  then have "\<exists>k \<in> set (keyword_t st'). kw_id k = i \<and> keyword k = kw" by force
  with "3.IH" [OF a refl b p] i show ?case by simp
qed


section \<open>What one paper adds to the store\<close>

lemma lower_char_idem: "lower_char (lower_char c) = lower_char c"
  by (auto simp: lower_char_def Let_def)

lemma lower_ascii_idem: "lower_ascii (lower_ascii s) = lower_ascii s"
  by (simp add: lower_ascii_def lower_char_idem)

lemma link_keywords_Inr:
  "link_keywords d ids st = Inr st' \<Longrightarrow>
     st' = st\<lparr>articlekeyword_t :=
            articlekeyword_t st @ map (\<lambda>i. \<lparr>article_doi = d, keyword_id = i\<rparr>) ids\<rparr>"
proof (induction ids arbitrary: st)
  case Nil then show ?case by simp
next
  case (Cons i ids)
  from Cons.prems obtain st1 where
    a: "insert_articlekeyword \<lparr>article_doi = d, keyword_id = i\<rparr> st = Inr st1"
    and b: "link_keywords d ids st1 = Inr st'"
    by (auto split: sum.splits)
  from a have "st1 = st\<lparr>articlekeyword_t := articlekeyword_t st @ [\<lparr>article_doi = d, keyword_id = i\<rparr>]\<rparr>"
    by (simp add: insert_articlekeyword_Inr)
  with Cons.IH [OF b] show ?case by simp
qed

lemma link_keywords_distinct:
  "link_keywords d ids st = Inr st' \<Longrightarrow>
   distinct (map (\<lambda>r. (article_doi r, keyword_id r)) (articlekeyword_t st)) \<Longrightarrow>
   distinct (map (\<lambda>r. (article_doi r, keyword_id r)) (articlekeyword_t st'))"
proof (induction ids arbitrary: st)
  case Nil then show ?case by simp
next
  case (Cons i ids)
  from Cons.prems(1) obtain st1 where
    a: "insert_articlekeyword \<lparr>article_doi = d, keyword_id = i\<rparr> st = Inr st1"
    and b: "link_keywords d ids st1 = Inr st'"
    by (auto split: sum.splits)
  from a Cons.prems(2) have "distinct (map (\<lambda>r. (article_doi r, keyword_id r)) (articlekeyword_t st1))"
    by (auto simp: insert_articlekeyword_Inr)
  from Cons.IH [OF b this] show ?case .
qed

lemma one_or_none_Inr:
  "one_or_none rows = Inr res \<longleftrightarrow> (rows = [] \<and> res = None) \<or> (\<exists>r. rows = [r] \<and> res = Some r)"
  by (auto simp: one_or_none_def split: list.splits)

lemma list_all2_right: "list_all2 P xs ys \<Longrightarrow> y \<in> set ys \<Longrightarrow> \<exists>x \<in> set xs. P x y"
  by (induction rule: list_all2_induct) auto

lemma list_all2_left: "list_all2 P xs ys \<Longrightarrow> x \<in> set xs \<Longrightarrow> \<exists>y \<in> set ys. P x y"
  by (induction rule: list_all2_induct) auto

lemma distinct_map_eq:
  "distinct (map f xs) \<Longrightarrow> x \<in> set xs \<Longrightarrow> y \<in> set xs \<Longrightarrow> f x = f y \<Longrightarrow> x = y"
  by (meson distinct_map inj_on_def)

lemma save_keywords_new_rows:
  "save_keywords objs st = Inr (ids, st') \<Longrightarrow> r \<in> set (keyword_t st') \<Longrightarrow>
     r \<in> set (keyword_t st) \<or> Pending (keyword r) \<in> set objs"
proof (induction objs st arbitrary: ids st' rule: save_keywords.induct)
  case (1 st) then show ?case by simp
next
  case (2 r' objs st)
  from "2.prems"(1) obtain ids' where b: "save_keywords objs st = Inr (ids', st')"
    by (auto split: sum.splits prod.splits)
  from "2.IH" [OF b "2.prems"(2)] show ?case by auto
next
  case (3 kw objs st)
  from "3.prems" obtain i st1 ids' where
    a: "insert_keyword kw st = Inr (i, st1)" and b: "save_keywords objs st1 = Inr (ids', st')"
    by (auto split: sum.splits prod.splits)
  from "3.IH" [OF a refl b "3.prems"(2)] a show ?case by (auto simp: insert_keyword_Inr)
qed

lemma list_all2_both:
  "list_all2 P xs ys \<Longrightarrow> list_all2 Q xs ys \<Longrightarrow> list_all2 (\<lambda>x y. P x y \<and> Q x y) xs ys"
  by (simp add: list_all2_conv_all_nth)

text \<open>
  What the inner loop hands to the commit: for a keyword whose lower-cased text is
  stored, the stored row; for any other, a new object that carries the text lower-cased
  once more.
\<close>

lemma lookup_keywords_Inr:
  "lookup_keywords lw ks st = Inr objs \<Longrightarrow>
     list_all2 (\<lambda>k obj.
         (\<exists>r. obj = Persistent r \<and> r \<in> set (keyword_t st) \<and> keyword r = lw k) \<or>
         (obj = Pending (lw (lw k)) \<and> lw k \<notin> set (map keyword (keyword_t st)))) ks objs"
proof (induction ks arbitrary: objs)
  case Nil
  then show ?case by simp
next
  case (Cons k ks)
  from Cons.prems obtain res objs' where
    a: "one_or_none (select_keyword (lw k) st) = Inr res"
    and b: "lookup_keywords lw ks st = Inr objs'"
    and c: "objs = (case res of None \<Rightarrow> Pending (lw (lw k)) | Some r \<Rightarrow> Persistent r) # objs'"
    by (auto simp: Let_def split: sum.splits)
  note ih = Cons.IH [OF b]
  show ?case
  proof (cases res)
    case None
    with a have "select_keyword (lw k) st = []" by (simp add: one_or_none_Inr)
    then have "lw k \<notin> set (map keyword (keyword_t st))"
      by (auto simp: select_keyword_def filter_empty_conv)
    with None c ih show ?thesis by simp
  next
    case (Some r)
    with a have "select_keyword (lw k) st = [r]" by (simp add: one_or_none_Inr)
    then have "r \<in> set (select_keyword (lw k) st)" by simp
    then have "r \<in> set (keyword_t st) \<and> keyword r = lw k" by (simp add: select_keyword_def)
    with Some c ih show ?thesis by simp
  qed
qed

lemma lookup_keywords_persistent:
  "lookup_keywords lw ks st = Inr objs \<Longrightarrow> Persistent r \<in> set objs \<Longrightarrow>
     r \<in> set (keyword_t st)"
  using list_all2_right [OF lookup_keywords_Inr] by fastforce

lemma lookup_keywords_pending:
  "lookup_keywords lw ks st = Inr objs \<Longrightarrow> Pending kw \<in> set objs \<Longrightarrow>
     \<exists>k \<in> set ks. kw = lw (lw k) \<and> lw k \<notin> set (map keyword (keyword_t st))"
  using list_all2_right [OF lookup_keywords_Inr] by fastforce

text \<open>A stored row keeps its id; a new object gets an id no row had before.\<close>

lemma save_keywords_fresh:
  "save_keywords objs st = Inr (ids, st') \<Longrightarrow> B \<subseteq> set (map kw_id (keyword_t st)) \<Longrightarrow>
     list_all2 (\<lambda>obj i. (\<exists>r. obj = Persistent r \<and> i = kw_id r) \<or>
                       ((\<exists>kw. obj = Pending kw) \<and> i \<notin> B)) objs ids"
proof (induction objs st arbitrary: ids st' rule: save_keywords.induct)
  case (1 st)
  then show ?case by simp
next
  case (2 r objs st)
  from "2.prems"(1) obtain ids' where
    b: "save_keywords objs st = Inr (ids', st')" and i: "ids = kw_id r # ids'"
    by (auto split: sum.splits prod.splits)
  from "2.IH" [OF b "2.prems"(2)] i show ?case by simp
next
  case (3 kw objs st)
  from "3.prems"(1) obtain i st1 ids' where
    a: "insert_keyword kw st = Inr (i, st1)" and b: "save_keywords objs st1 = Inr (ids', st')"
    and i: "ids = i # ids'"
    by (auto split: sum.splits prod.splits)
  from a have i1: "i = next_id (map kw_id (keyword_t st))"
    and k1: "keyword_t st1 = keyword_t st @ [\<lparr>kw_id = i, keyword = kw\<rparr>]"
    by (auto simp: insert_keyword_Inr)
  from i1 next_id_fresh [of "map kw_id (keyword_t st)"] "3.prems"(2) have f: "i \<notin> B" by blast
  from k1 "3.prems"(2) have "B \<subseteq> set (map kw_id (keyword_t st1))" by auto
  from "3.IH" [OF a refl b this] f i show ?case by simp
qed

lemma load_paper_Inr:
  assumes "load_paper lw p st = Inr st'"
  shows "\<exists>ids news.
     item_doi p \<notin> set (map doi (article_t st)) \<and>
     article_t st' = article_t st @ [new_article p] \<and>
     author_t st' = author_t st \<and>
     articleauthor_t st' = articleauthor_t st \<and>
     keyword_t st' = keyword_t st @ news \<and>
     articlekeyword_t st' =
       articlekeyword_t st @ map (\<lambda>i. \<lparr>article_doi = item_doi p, keyword_id = i\<rparr>) ids \<and>
     list_all2 (\<lambda>k i. \<exists>r \<in> set (keyword_t st'). kw_id r = i \<and>
         ((r \<in> set (keyword_t st) \<and> keyword r = lw k) \<or>
          (i \<notin> set (map kw_id (keyword_t st)) \<and> keyword r = lw (lw k) \<and>
           lw k \<notin> set (map keyword (keyword_t st)))))
       (item_keywords p) ids \<and>
     (distinct (map kw_id (keyword_t st)) \<longrightarrow> distinct (map kw_id (keyword_t st'))) \<and>
     (distinct (map keyword (keyword_t st)) \<longrightarrow> distinct (map keyword (keyword_t st'))) \<and>
     (distinct (map (\<lambda>r. (article_doi r, keyword_id r)) (articlekeyword_t st)) \<longrightarrow>
      distinct (map (\<lambda>r. (article_doi r, keyword_id r)) (articlekeyword_t st')))"
proof -
  from assms obtain objs st1 ids st2 where
    lk: "lookup_keywords lw (item_keywords p) st = Inr objs"
    and ia: "insert_article (new_article p) st = Inr st1"
    and sk: "save_keywords objs st1 = Inr (ids, st2)"
    and ln: "link_keywords (item_doi p) ids st2 = Inr st'"
    by (auto simp: load_paper_def session_add_commit_def new_article_def
        split: sum.splits prod.splits)
  from ia have d: "item_doi p \<notin> set (map doi (article_t st))"
    and st1: "st1 = st\<lparr>article_t := article_t st @ [new_article p]\<rparr>"
    by (auto simp: insert_article_Inr new_article_def)
  note fr = save_keywords_frame [OF sk]
  from save_keywords_appends [OF sk] obtain news where nw: "keyword_t st2 = keyword_t st1 @ news"
    by blast
  note st' = link_keywords_Inr [OF ln]
  from st1 have k1: "keyword_t st1 = keyword_t st" by simp
  from lookup_keywords_persistent [OF lk] k1
  have pr: "\<forall>r. Persistent r \<in> set objs \<longrightarrow> r \<in> set (keyword_t st1)" by simp
  have sub: "set (map kw_id (keyword_t st)) \<subseteq> set (map kw_id (keyword_t st1))"
    using k1 by simp
  note r1 = lookup_keywords_Inr [OF lk]
  note r2 = list_all2_both [OF save_keywords_ids [OF sk pr] save_keywords_fresh [OF sk sub]]
  have la: "list_all2 (\<lambda>k i. \<exists>r \<in> set (keyword_t st'). kw_id r = i \<and>
         ((r \<in> set (keyword_t st) \<and> keyword r = lw k) \<or>
          (i \<notin> set (map kw_id (keyword_t st)) \<and> keyword r = lw (lw k) \<and>
           lw k \<notin> set (map keyword (keyword_t st)))))
       (item_keywords p) ids"
  proof (rule list_all2_trans [OF _ r1 r2])
    fix k obj i
    assume a: "(\<exists>r. obj = Persistent r \<and> r \<in> set (keyword_t st) \<and> keyword r = lw k) \<or>
         (obj = Pending (lw (lw k)) \<and> lw k \<notin> set (map keyword (keyword_t st)))"
      and b: "(\<exists>k\<in>set (keyword_t st2). kw_id k = i \<and> keyword k = kw_text obj) \<and>
         ((\<exists>r. obj = Persistent r \<and> i = kw_id r) \<or>
          ((\<exists>kw. obj = Pending kw) \<and> i \<notin> set (map kw_id (keyword_t st))))"
    from st' have k': "keyword_t st' = keyword_t st2" by simp
    from a show "\<exists>r \<in> set (keyword_t st'). kw_id r = i \<and>
         ((r \<in> set (keyword_t st) \<and> keyword r = lw k) \<or>
          (i \<notin> set (map kw_id (keyword_t st)) \<and> keyword r = lw (lw k) \<and>
           lw k \<notin> set (map keyword (keyword_t st))))"
    proof
      assume "\<exists>r. obj = Persistent r \<and> r \<in> set (keyword_t st) \<and> keyword r = lw k"
      then obtain r where r: "obj = Persistent r" "r \<in> set (keyword_t st)" "keyword r = lw k"
        by blast
      with b have "i = kw_id r" by simp
      moreover from r(2) nw k1 k' have "r \<in> set (keyword_t st')" by simp
      ultimately show ?thesis using r by blast
    next
      assume p: "obj = Pending (lw (lw k)) \<and> lw k \<notin> set (map keyword (keyword_t st))"
      with b obtain r where "r \<in> set (keyword_t st2)" "kw_id r = i" "keyword r = lw (lw k)"
        "i \<notin> set (map kw_id (keyword_t st))" by auto
      with p k' show ?thesis by metis
    qed
  qed
  have d1: "distinct (map kw_id (keyword_t st)) \<longrightarrow> distinct (map kw_id (keyword_t st'))"
    using save_keywords_ids_distinct [OF sk] st1 st' by simp
  have d2: "distinct (map keyword (keyword_t st)) \<longrightarrow> distinct (map keyword (keyword_t st'))"
    using save_keywords_texts_distinct [OF sk] st1 st' by simp
  have d3: "distinct (map (\<lambda>r. (article_doi r, keyword_id r)) (articlekeyword_t st)) \<longrightarrow>
      distinct (map (\<lambda>r. (article_doi r, keyword_id r)) (articlekeyword_t st'))"
    using link_keywords_distinct [OF ln] fr st1 by simp
  from d st1 fr nw st' la d1 d2 d3 show ?thesis
    apply (intro exI [of _ ids] exI [of _ news])
    apply (simp add: new_article_def)
    done
qed


lemma load_paper_new_rows:
  assumes "load_paper lw p st = Inr st'" and "r \<in> set (keyword_t st')"
  shows "r \<in> set (keyword_t st) \<or> keyword r \<in> (\<lambda>k. lw (lw k)) ` set (item_keywords p)"
proof -
  from assms(1) obtain objs st1 ids st2 where
    lk: "lookup_keywords lw (item_keywords p) st = Inr objs"
    and ia: "insert_article (new_article p) st = Inr st1"
    and sk: "save_keywords objs st1 = Inr (ids, st2)"
    and ln: "link_keywords (item_doi p) ids st2 = Inr st'"
    by (auto simp: load_paper_def session_add_commit_def new_article_def
        split: sum.splits prod.splits)
  from link_keywords_Inr [OF ln] assms(2) have "r \<in> set (keyword_t st2)" by simp
  from save_keywords_new_rows [OF sk this] ia
  have "r \<in> set (keyword_t st) \<or> Pending (keyword r) \<in> set objs"
    by (auto simp: insert_article_Inr)
  moreover have "keyword r \<in> (\<lambda>k. lw (lw k)) ` set (item_keywords p)"
    if "Pending (keyword r) \<in> set objs"
    using lookup_keywords_pending [OF lk that] by blast
  ultimately show ?thesis by blast
qed

lemma linked_load_paper:
  assumes "articlekeyword_t st' =
       articlekeyword_t st @ map (\<lambda>i. \<lparr>article_doi = d0, keyword_id = i\<rparr>) ids"
  shows "linked st' d i \<longleftrightarrow> linked st d i \<or> (d = d0 \<and> i \<in> set ids)"
  using assms by (auto simp: linked_def)

lemma references_ok_linked:
  "references_ok st \<Longrightarrow> linked st d i \<Longrightarrow>
     d \<in> set (map doi (article_t st)) \<and> i \<in> set (map kw_id (keyword_t st))"
  by (auto simp: references_ok_def linked_def)

lemma load_paper_references_ok:
  assumes "load_paper lw p st = Inr st'" and "references_ok st"
  shows "references_ok st'"
proof -
  from load_paper_Inr [OF assms(1)] obtain ids news where
    a: "article_t st' = article_t st @ [new_article p]"
    and au: "author_t st' = author_t st" and aa: "articleauthor_t st' = articleauthor_t st"
    and k: "keyword_t st' = keyword_t st @ news"
    and l: "articlekeyword_t st' =
       articlekeyword_t st @ map (\<lambda>i. \<lparr>article_doi = item_doi p, keyword_id = i\<rparr>) ids"
    and la: "list_all2 (\<lambda>k i. \<exists>r \<in> set (keyword_t st'). kw_id r = i \<and>
         ((r \<in> set (keyword_t st) \<and> keyword r = lw k) \<or>
          (i \<notin> set (map kw_id (keyword_t st)) \<and> keyword r = lw (lw k) \<and>
           lw k \<notin> set (map keyword (keyword_t st)))))
       (item_keywords p) ids"
    by blast
  have new: "i \<in> set (map kw_id (keyword_t st'))" if "i \<in> set ids" for i
    using list_all2_right [OF la that] by auto
  show ?thesis
    unfolding references_ok_def
  proof (intro conjI ballI)
    fix x assume "x \<in> set (articlekeyword_t st')"
    with l have "x \<in> set (articlekeyword_t st) \<or> (article_doi x = item_doi p \<and> keyword_id x \<in> set ids)"
      by auto
    then show "article_doi x \<in> set (map doi (article_t st'))"
      using assms(2) a by (auto simp: references_ok_def new_article_def)
    from \<open>x \<in> set (articlekeyword_t st) \<or> (article_doi x = item_doi p \<and> keyword_id x \<in> set ids)\<close>
    show "keyword_id x \<in> set (map kw_id (keyword_t st'))"
      using assms(2) k new by (auto simp: references_ok_def)
  next
    fix x assume "x \<in> set (articleauthor_t st')"
    with aa assms(2) a show "article_doi_aa x \<in> set (map doi (article_t st'))"
      by (auto simp: references_ok_def)
    from \<open>x \<in> set (articleauthor_t st')\<close> aa assms(2) au
    show "author_id_aa x \<in> set (map author_id (author_t st'))"
      by (auto simp: references_ok_def)
  qed
qed

lemma load_paper_links_unique:
  assumes "load_paper lw p st = Inr st'" and "links_unique st"
  shows "links_unique st'"
  using load_paper_Inr [OF assms(1)] assms(2) by (auto simp: links_unique_def)

lemma load_paper_keys_unique:
  assumes "load_paper lw p st = Inr st'" and "keys_unique st"
  shows "keys_unique st'"
  using load_paper_Inr [OF assms(1)] assms(2) by (auto simp: keys_unique_def new_article_def)

lemma load_paper_keywords_lowered:
  assumes "load_paper lw p st = Inr st'" and "keywords_lowered lw st"
    and idem: "\<forall>s. lw (lw s) = lw s"
  shows "keywords_lowered lw st'"
  unfolding keywords_lowered_def
proof
  fix k assume "k \<in> set (keyword_t st')"
  from load_paper_new_rows [OF assms(1) this] assms(2) idem
  show "lw (keyword k) = keyword k" by (auto simp: keywords_lowered_def)
qed



section \<open>The query returns the articles whose keywords match\<close>

lemma startswith_iff: "startswith s sub \<longleftrightarrow> (\<exists>post. s = sub @ post)"
  by (induction s sub rule: startswith.induct) auto

lemma has_substring_iff: "has_substring s sub \<longleftrightarrow> (\<exists>pre post. s = pre @ sub @ post)"
proof (induction s)
  case Nil
  show ?case by auto
next
  case (Cons x xs)
  show ?case
  proof
    assume "has_substring (x # xs) sub"
    then consider "startswith (x # xs) sub" | "has_substring xs sub" by auto
    then show "\<exists>pre post. x # xs = pre @ sub @ post"
    proof cases
      case 1
      then obtain post where "x # xs = [] @ sub @ post" by (auto simp: startswith_iff)
      then show ?thesis by blast
    next
      case 2
      with Cons.IH obtain pre post where "xs = pre @ sub @ post" by blast
      then have "x # xs = (x # pre) @ sub @ post" by simp
      then show ?thesis by blast
    qed
  next
    assume "\<exists>pre post. x # xs = pre @ sub @ post"
    then obtain pre post where e: "x # xs = pre @ sub @ post" by blast
    show "has_substring (x # xs) sub"
    proof (cases pre)
      case Nil
      with e have "startswith (x # xs) sub" by (auto simp: startswith_iff)
      then show ?thesis by simp
    next
      case (Cons y pre')
      with e have "xs = pre' @ sub @ post" by simp
      with Cons.IH have "has_substring xs sub" by blast
      then show ?thesis by simp
    qed
  qed
qed












lemma empty_store_ok:
  "keys_unique empty_store \<and> references_ok empty_store \<and> links_unique empty_store"
  by (simp add: keys_unique_def references_ok_def links_unique_def empty_store_def)







section \<open>A doi is stored once\<close>

lemma filter_distinct_map:
  "distinct (map f xs) \<Longrightarrow> filter (\<lambda>r. f r = v) xs = [] \<or> (\<exists>r. filter (\<lambda>r. f r = v) xs = [r])"
proof (induction xs)
  case Nil then show ?case by simp
next
  case (Cons x xs)
  show ?case
  proof (cases "f x = v")
    case True
    with Cons.prems have "\<forall>r \<in> set xs. f r \<noteq> v" by (metis distinct.simps(2) imageI list.simps(9) set_map)
    then have "filter (\<lambda>r. f r = v) xs = []" by (simp add: filter_empty_conv)
    with True show ?thesis by simp
  next
    case False
    with Cons show ?thesis by simp
  qed
qed

lemma lookup_keywords_total:
  assumes "distinct (map keyword (keyword_t st))"
  shows "\<exists>objs. lookup_keywords lw ks st = Inr objs"
proof (induction ks)
  case Nil show ?case by simp
next
  case (Cons k ks)
  then obtain objs where o: "lookup_keywords lw ks st = Inr objs" by blast
  from filter_distinct_map [OF assms, of "lw k"]
  have "\<exists>res. one_or_none (select_keyword (lw k) st) = Inr res"
    by (auto simp: select_keyword_def one_or_none_def)
  then obtain res where "one_or_none (select_keyword (lw k) st) = Inr res" by blast
  with o show ?case by (simp add: Let_def)
qed

lemma insert_articlekeyword_linked:
  "insert_articlekeyword \<lparr>article_doi = d, keyword_id = i\<rparr> st =
     (if linked st d i then Inl IntegrityError
      else Inr (st\<lparr>articlekeyword_t :=
                  articlekeyword_t st @ [\<lparr>article_doi = d, keyword_id = i\<rparr>]\<rparr>))"
  by (simp add: insert_articlekeyword_def linked_def)

text \<open>When the commit of a paper goes through.\<close>

lemma save_keywords_succeeds:
  "distinct [kw. Pending kw \<leftarrow> objs] \<Longrightarrow>
   \<forall>kw. Pending kw \<in> set objs \<longrightarrow> kw \<notin> set (map keyword (keyword_t st)) \<Longrightarrow>
     \<exists>ids st'. save_keywords objs st = Inr (ids, st')"
proof (induction objs st rule: save_keywords.induct)
  case (1 st)
  then show ?case by simp
next
  case (2 r objs st)
  from "2.prems" have "distinct [kw. Pending kw \<leftarrow> objs]"
    and "\<forall>kw. Pending kw \<in> set objs \<longrightarrow> kw \<notin> set (map keyword (keyword_t st))" by simp_all
  from "2.IH" [OF this] obtain ids st' where "save_keywords objs st = Inr (ids, st')" by blast
  then show ?case by simp
next
  case (3 kw objs st)
  from "3.prems"(2) have n: "kw \<notin> set (map keyword (keyword_t st))" by simp
  let ?i = "next_id (map kw_id (keyword_t st))"
  let ?st1 = "st\<lparr>keyword_t := keyword_t st @ [\<lparr>kw_id = ?i, keyword = kw\<rparr>]\<rparr>"
  from n have a: "insert_keyword kw st = Inr (?i, ?st1)" by (simp add: insert_keyword_Inr)
  from "3.prems"(1) have d: "distinct [k. Pending k \<leftarrow> objs]"
    and nk: "Pending kw \<notin> set objs" by auto
  have "\<forall>k. Pending k \<in> set objs \<longrightarrow> k \<notin> set (map keyword (keyword_t ?st1))"
  proof (intro allI impI)
    fix k assume k: "Pending k \<in> set objs"
    with nk have "k \<noteq> kw" by blast
    moreover from k "3.prems"(2) have "k \<notin> set (map keyword (keyword_t st))" by simp
    ultimately show "k \<notin> set (map keyword (keyword_t ?st1))" by simp
  qed
  from "3.IH" [OF a refl d this] obtain ids st' where
    "save_keywords objs ?st1 = Inr (ids, st')" by blast
  with a show ?case by simp
qed

lemma link_keywords_succeeds:
  "distinct ids \<Longrightarrow> \<forall>i \<in> set ids. \<not> linked st d i \<Longrightarrow> \<exists>st'. link_keywords d ids st = Inr st'"
proof (induction ids arbitrary: st)
  case Nil
  then show ?case by simp
next
  case (Cons i ids)
  let ?st1 = "st\<lparr>articlekeyword_t :=
      articlekeyword_t st @ [\<lparr>article_doi = d, keyword_id = i\<rparr>]\<rparr>"
  from Cons.prems(2) have a: "insert_articlekeyword \<lparr>article_doi = d, keyword_id = i\<rparr> st = Inr ?st1"
    by (simp add: insert_articlekeyword_linked)
  have "\<forall>j \<in> set ids. \<not> linked ?st1 d j"
  proof
    fix j assume j: "j \<in> set ids"
    with Cons.prems(1) have "j \<noteq> i" by auto
    moreover from j Cons.prems(2) have "\<not> linked st d j" by simp
    ultimately show "\<not> linked ?st1 d j" by (auto simp: linked_def)
  qed
  moreover from Cons.prems(1) have "distinct ids" by simp
  ultimately obtain st' where "link_keywords d ids ?st1 = Inr st'" using Cons.IH by blast
  with a show ?case by simp
qed

lemma pending_texts:
  "distinct (map kw_text objs) \<Longrightarrow>
     distinct [kw. Pending kw \<leftarrow> objs] \<and> set [kw. Pending kw \<leftarrow> objs] \<subseteq> set (map kw_text objs)"
proof (induction objs)
  case Nil
  then show ?case by simp
next
  case (Cons obj objs)
  then have ih: "distinct [kw. Pending kw \<leftarrow> objs]"
      "set [kw. Pending kw \<leftarrow> objs] \<subseteq> set (map kw_text objs)"
    and n: "kw_text obj \<notin> set (map kw_text objs)" by simp_all
  show ?case
  proof (cases obj)
    case (Persistent r)
    with ih show ?thesis by auto
  next
    case (Pending kw)
    with n ih(2) have "kw \<notin> set [k. Pending k \<leftarrow> objs]" by auto
    with Pending ih show ?thesis by auto
  qed
qed

lemma list_all2_distinct:
  "list_all2 P xs ys \<Longrightarrow> distinct (map f xs) \<Longrightarrow>
   (\<And>x x' y. P x y \<Longrightarrow> P x' y \<Longrightarrow> f x = f x') \<Longrightarrow> distinct ys"
proof (induction rule: list_all2_induct)
  case Nil
  then show ?case by simp
next
  case (Cons x xs y ys)
  have "y \<notin> set ys"
  proof
    assume "y \<in> set ys"
    from list_all2_right [OF Cons.hyps(2) this] obtain x' where
      x': "x' \<in> set xs" "P x' y" by blast
    from Cons.prems(2) [OF Cons.hyps(1) x'(2)] x'(1) have "f x \<in> f ` set xs" by simp
    with Cons.prems(1) show False by simp
  qed
  moreover from Cons.prems(1) have "distinct (map f xs)" by simp
  then have "distinct ys" by (rule Cons.IH) (rule Cons.prems(2))
  ultimately show ?case by simp
qed

lemma list_all2_map_eq: "list_all2 (\<lambda>x y. f y = g x) xs ys \<Longrightarrow> map f ys = map g xs"
  by (induction rule: list_all2_induct) simp_all

lemma load_paper_succeeds:
  assumes ku: "keys_unique st" and ro: "references_ok st"
    and nd: "item_doi p \<notin> set (map doi (article_t st))"
    and dk: "distinct (map lw (item_keywords p))"
    and idem: "\<forall>s. lw (lw s) = lw s"
  shows "\<exists>st'. load_paper lw p st = Inr st'"
proof -
  from ku have dt: "distinct (map keyword (keyword_t st))"
    and di: "distinct (map kw_id (keyword_t st))" by (simp_all add: keys_unique_def)
  from lookup_keywords_total [OF dt] obtain objs where
    lk: "lookup_keywords lw (item_keywords p) st = Inr objs" by blast
  have "list_all2 (\<lambda>k obj. kw_text obj = lw k) (item_keywords p) objs"
    by (rule list_all2_mono [OF lookup_keywords_Inr [OF lk]]) (use idem in auto)
  then have tx: "map kw_text objs = map lw (item_keywords p)" by (rule list_all2_map_eq)
  with dk have dx: "distinct (map kw_text objs)" by simp
  let ?st1 = "st\<lparr>article_t := article_t st @ [new_article p]\<rparr>"
  from nd have ia: "insert_article (new_article p) st = Inr ?st1"
    by (simp add: insert_article_Inr new_article_def)
  have pn: "\<forall>kw. Pending kw \<in> set objs \<longrightarrow> kw \<notin> set (map keyword (keyword_t ?st1))"
  proof (intro allI impI)
    fix kw assume "Pending kw \<in> set objs"
    from lookup_keywords_pending [OF lk this] idem
    show "kw \<notin> set (map keyword (keyword_t ?st1))" by auto
  qed
  from pending_texts [OF dx] have "distinct [kw. Pending kw \<leftarrow> objs]" by blast
  from save_keywords_succeeds [OF this pn] obtain ids st2 where
    sk: "save_keywords objs ?st1 = Inr (ids, st2)" by blast
  from lookup_keywords_persistent [OF lk]
  have pr: "\<forall>r. Persistent r \<in> set objs \<longrightarrow> r \<in> set (keyword_t ?st1)" by simp
  note r2 = save_keywords_ids [OF sk pr]
  from save_keywords_ids_distinct [OF sk] di have di2: "distinct (map kw_id (keyword_t st2))"
    by simp
  have dids: "distinct ids"
  proof (rule list_all2_distinct [OF r2 dx])
    fix x x' y
    assume "\<exists>k\<in>set (keyword_t st2). kw_id k = y \<and> keyword k = kw_text x"
      and "\<exists>k\<in>set (keyword_t st2). kw_id k = y \<and> keyword k = kw_text x'"
    then obtain k k' where k: "k \<in> set (keyword_t st2)" "kw_id k = y" "keyword k = kw_text x"
      and k': "k' \<in> set (keyword_t st2)" "kw_id k' = y" "keyword k' = kw_text x'" by blast
    from distinct_map_eq [OF di2 k(1) k'(1)] k(2) k'(2) have "k = k'" by simp
    with k(3) k'(3) show "kw_text x = kw_text x'" by simp
  qed
  from save_keywords_frame [OF sk] have l2: "articlekeyword_t st2 = articlekeyword_t st" by simp
  have nl: "\<forall>i \<in> set ids. \<not> linked st2 (item_doi p) i"
  proof
    fix i
    have "linked st2 (item_doi p) i \<longleftrightarrow> linked st (item_doi p) i" using l2 by (simp add: linked_def)
    with references_ok_linked [OF ro, of "item_doi p" i] nd
    show "\<not> linked st2 (item_doi p) i" by blast
  qed
  from link_keywords_succeeds [OF dids nl] obtain st' where
    "link_keywords (item_doi p) ids st2 = Inr st'" by blast
  with lk ia sk have "load_paper lw p st = Inr st'"
    by (simp add: load_paper_def session_add_commit_def new_article_def)
  then show ?thesis by blast
qed

text \<open>The insert cell: what its keyword loop leaves alone, and when it goes through.\<close>

lemma add_keywords_articles: "article_t (snd (add_keywords lw ks st)) = article_t st"
proof (induction ks arbitrary: st)
  case Nil
  show ?case by simp
next
  case (Cons k ks)
  show ?case
  proof (cases "insert_keyword (lw k) st")
    case (Inl e)
    then show ?thesis by simp
  next
    case (Inr r)
    obtain i st1 where r: "r = (i, st1)" by (cases r)
    with Inr have "article_t st1 = article_t st" by (auto simp: insert_keyword_Inr)
    with Cons.IH [of st1] Inr r show ?thesis by simp
  qed
qed

lemma add_keywords_succeeds:
  "distinct (map lw ks) \<Longrightarrow> \<forall>k \<in> set ks. lw k \<notin> set (map keyword (keyword_t st)) \<Longrightarrow>
     fst (add_keywords lw ks st) = None"
proof (induction ks arbitrary: st)
  case Nil
  show ?case by simp
next
  case (Cons k ks)
  let ?i = "next_id (map kw_id (keyword_t st))"
  let ?st1 = "st\<lparr>keyword_t := keyword_t st @ [\<lparr>kw_id = ?i, keyword = lw k\<rparr>]\<rparr>"
  from Cons.prems(2) have a: "insert_keyword (lw k) st = Inr (?i, ?st1)"
    by (simp add: insert_keyword_Inr)
  have "\<forall>x \<in> set ks. lw x \<notin> set (map keyword (keyword_t ?st1))"
  proof
    fix x assume x: "x \<in> set ks"
    then have "lw x \<in> lw ` set ks" by (rule imageI)
    with Cons.prems(1) have "lw x \<noteq> lw k" by auto
    moreover from x Cons.prems(2) have "lw x \<notin> set (map keyword (keyword_t st))" by simp
    ultimately show "lw x \<notin> set (map keyword (keyword_t ?st1))" by simp
  qed
  moreover from Cons.prems(1) have "distinct (map lw ks)" by simp
  ultimately have "fst (add_keywords lw ks ?st1) = None" by (rule Cons.IH [rotated])
  with a show ?case by simp
qed

text \<open>
  Claim C7. For a paper whose doi is not stored: the insert of its article succeeds and
  appends the row; the insert cell commits the article, whatever becomes of its
  keywords, and raises nothing when the lower-cased keywords are new and differ; the
  loader stores the paper when the store has unique keys and sound references and the
  lower-cased keywords differ. After any of the three, every insert of an article with
  that doi is rejected with \<open>IntegrityError\<close>, which leaves the cell and the loader loop
  as their result, the store unchanged.
\<close>

theorem duplicate_doi_rejected:
  assumes "item_doi p \<notin> set (map doi (article_t st))"
  shows "(\<exists>s1. insert_article (new_article p) st = Inr s1
            \<and> article_t s1 = article_t st @ [new_article p]
            \<and> (\<forall>b. doi b = item_doi p \<longrightarrow> insert_article b s1 = Inl IntegrityError))
       \<and> article_t (snd (add_first_article lw p st)) = article_t st @ [new_article p]
       \<and> (distinct (map lw (item_keywords p)) \<and>
            (\<forall>k \<in> set (item_keywords p). lw k \<notin> set (map keyword (keyword_t st)))
          \<longrightarrow> fst (add_first_article lw p st) = None)
       \<and> (\<forall>q. item_doi q = item_doi p \<longrightarrow>
             add_first_article lw q (snd (add_first_article lw p st))
               = (Some IntegrityError, snd (add_first_article lw p st)))
       \<and> (keys_unique st \<and> references_ok st \<and> distinct (map lw (item_keywords p)) \<and>
            (\<forall>s. lw (lw s) = lw s)
          \<longrightarrow> (\<exists>s2. load_paper lw p st = Inr s2
                  \<and> article_t s2 = article_t st @ [new_article p]
                  \<and> (\<forall>q qs. item_doi q = item_doi p \<longrightarrow>
                        load lw (q # qs) s2 = (Some IntegrityError, s2))))"
proof -
  let ?s1 = "st\<lparr>article_t := article_t st @ [new_article p]\<rparr>"
  from assms have ia: "insert_article (new_article p) st = Inr ?s1"
    by (simp add: insert_article_def new_article_def)
  have rej: "insert_article b s = Inl IntegrityError"
    if "doi b = item_doi p" "new_article p \<in> set (article_t s)" for b s
  proof -
    from that(2) have "doi (new_article p) \<in> doi ` set (article_t s)" by (rule imageI)
    with that(1) show ?thesis by (simp add: insert_article_def new_article_def)
  qed
  have 1: "\<exists>s1. insert_article (new_article p) st = Inr s1
            \<and> article_t s1 = article_t st @ [new_article p]
            \<and> (\<forall>b. doi b = item_doi p \<longrightarrow> insert_article b s1 = Inl IntegrityError)"
    using ia rej [of _ ?s1] by simp
  let ?c = "snd (add_first_article lw p st)"
  from ia have c: "add_first_article lw p st = add_keywords lw (item_keywords p) ?s1"
    by (simp add: add_first_article_def)
  then have 2: "article_t ?c = article_t st @ [new_article p]"
    by (simp add: add_keywords_articles)
  have 3: "distinct (map lw (item_keywords p)) \<and>
            (\<forall>k \<in> set (item_keywords p). lw k \<notin> set (map keyword (keyword_t st)))
          \<longrightarrow> fst (add_first_article lw p st) = None"
    using add_keywords_succeeds [of lw "item_keywords p" ?s1] c by simp
  have 4: "\<forall>q. item_doi q = item_doi p \<longrightarrow>
             add_first_article lw q ?c = (Some IntegrityError, ?c)"
  proof (intro allI impI)
    fix q :: item assume "item_doi q = item_doi p"
    then have "doi (new_article q) = item_doi p" by (simp add: new_article_def)
    from rej [OF this, of ?c] 2 show "add_first_article lw q ?c = (Some IntegrityError, ?c)"
      by (simp add: add_first_article_def)
  qed
  have 5: "\<exists>s2. load_paper lw p st = Inr s2
                  \<and> article_t s2 = article_t st @ [new_article p]
                  \<and> (\<forall>q qs. item_doi q = item_doi p \<longrightarrow>
                        load lw (q # qs) s2 = (Some IntegrityError, s2))"
    if h: "keys_unique st \<and> references_ok st \<and> distinct (map lw (item_keywords p)) \<and>
            (\<forall>s. lw (lw s) = lw s)"
  proof -
    from h load_paper_succeeds [OF _ _ assms, of lw] obtain s2 where
      lp: "load_paper lw p st = Inr s2" by blast
    from load_paper_Inr [OF lp] have a2: "article_t s2 = article_t st @ [new_article p]" by blast
    from load_paper_keys_unique [OF lp] h have "distinct (map keyword (keyword_t s2))"
      by (simp add: keys_unique_def)
    note tot = lookup_keywords_total [OF this]
    have "load lw (q # qs) s2 = (Some IntegrityError, s2)" if "item_doi q = item_doi p" for q :: item and qs
    proof -
      from tot obtain objs where "lookup_keywords lw (item_keywords q) s2 = Inr objs" by blast
      moreover from that have "doi (new_article q) = item_doi p" by (simp add: new_article_def)
      from rej [OF this, of s2] a2 have "insert_article (new_article q) s2 = Inl IntegrityError"
        by simp
      ultimately have "load_paper lw q s2 = Inl IntegrityError"
        by (simp add: load_paper_def session_add_commit_def)
      then show ?thesis by simp
    qed
    with lp a2 show ?thesis by blast
  qed
  from 1 2 3 4 5 show ?thesis by blast
qed

theorem duplicate_doi_rejected_witness:
  "item_doi paper_a \<notin> set (map doi (article_t empty_store))
   \<and> add_first_article lower_ascii paper_a empty_store
       = (None, \<lparr>article_t = [new_article paper_a], author_t = [],
                  keyword_t = [\<lparr>kw_id = 1, keyword = ''chemoinformatics''\<rparr>,
                               \<lparr>kw_id = 2, keyword = ''drug discovery''\<rparr>],
                  articlekeyword_t = [], articleauthor_t = []\<rparr>)
   \<and> add_first_article lower_ascii paper_a (snd (add_first_article lower_ascii paper_a empty_store))
       = (Some IntegrityError, snd (add_first_article lower_ascii paper_a empty_store))
   \<and> load_paper lower_ascii paper_a empty_store = Inr (snd (load lower_ascii [paper_a] empty_store))
   \<and> article_t (snd (load lower_ascii [paper_a] empty_store)) = [new_article paper_a]
   \<and> load lower_ascii [paper_a, paper_b] (snd (load lower_ascii [paper_a] empty_store))
       = (Some IntegrityError, snd (load lower_ascii [paper_a] empty_store))"
proof -
  have h: "item_doi paper_a \<notin> set (map doi (article_t empty_store))"
    by (simp add: empty_store_def)
  note t = duplicate_doi_rejected [OF h, of lower_ascii]
  have e: "add_first_article lower_ascii paper_a empty_store
       = (None, \<lparr>article_t = [new_article paper_a], author_t = [],
                  keyword_t = [\<lparr>kw_id = 1, keyword = ''chemoinformatics''\<rparr>,
                               \<lparr>kw_id = 2, keyword = ''drug discovery''\<rparr>],
                  articlekeyword_t = [], articleauthor_t = []\<rparr>)" by code_simp
  from t have c: "add_first_article lower_ascii paper_a
        (snd (add_first_article lower_ascii paper_a empty_store))
       = (Some IntegrityError, snd (add_first_article lower_ascii paper_a empty_store))"
    by blast
  have g: "keys_unique empty_store \<and> references_ok empty_store \<and>
      distinct (map lower_ascii (item_keywords paper_a)) \<and>
      (\<forall>s. lower_ascii (lower_ascii s) = lower_ascii s)"
  proof -
    have "distinct (map lower_ascii (item_keywords paper_a))" by code_simp
    with empty_store_ok lower_ascii_idem show ?thesis by blast
  qed
  with t obtain s2 where s2: "load_paper lower_ascii paper_a empty_store = Inr s2"
      "article_t s2 = article_t empty_store @ [new_article paper_a]"
      "\<forall>q qs. item_doi q = item_doi paper_a \<longrightarrow>
         load lower_ascii (q # qs) s2 = (Some IntegrityError, s2)" by blast
  from s2(1) have eq: "snd (load lower_ascii [paper_a] empty_store) = s2" by simp
  from s2(2) have a: "article_t s2 = [new_article paper_a]" by (simp add: empty_store_def)
  from s2(3) have l: "load lower_ascii [paper_a, paper_b] s2 = (Some IntegrityError, s2)"
    by blast
  from h e c s2(1) a l show ?thesis unfolding eq by blast
qed

section \<open>The publication year of a stored article\<close>

lemma load_articles:
  "load lw ps st = (e, st') \<Longrightarrow> \<exists>qs. article_t st' = article_t st @ map new_article qs \<and>
      (e = None \<longrightarrow> qs = ps)"
proof (induction ps arbitrary: st)
  case Nil
  then have "article_t st' = article_t st @ map new_article [] \<and> (e = None \<longrightarrow> [] = [])" by simp
  then show ?case by blast
next
  case (Cons p ps)
  show ?case
  proof (cases "load_paper lw p st")
    case (Inl err)
    with Cons.prems have "article_t st' = article_t st @ map new_article [] \<and> e \<noteq> None" by auto
    then show ?thesis by blast
  next
    case (Inr st1)
    with Cons.prems have r: "load lw ps st1 = (e, st')" by simp
    from load_paper_Inr [OF Inr] have a1: "article_t st1 = article_t st @ [new_article p]" by blast
    from Cons.IH [OF r] obtain qs where "article_t st' = article_t st1 @ map new_article qs"
      "e = None \<longrightarrow> qs = ps" by blast
    with a1 have "article_t st' = article_t st @ map new_article (p # qs) \<and> (e = None \<longrightarrow> p # qs = p # ps)"
      by simp
    then show ?thesis by blast
  qed
qed

text \<open>
  Claim C9. Every article row the loader or the insert cell stores has publication year
  2024, whatever the input record says: a successful load appends \<open>new_article p\<close> for each
  paper, \<open>new_article\<close> fixes the year, and the date of the record does not enter it.
\<close>

theorem publication_year_2024:
  "(load lw ps st = (None, st') \<longrightarrow> article_t st' = article_t st @ map new_article ps)
   \<and> (\<forall>a \<in> set (article_t (snd (load lw ps st))).
         a \<in> set (article_t st) \<or> publication_year a = 2024)
   \<and> (\<forall>a \<in> set (article_t (snd (add_first_article lw p st))).
         a \<in> set (article_t st) \<or> publication_year a = 2024)
   \<and> publication_year (new_article p) = 2024
   \<and> new_article (p\<lparr>item_publishedDate := d\<rparr>) = new_article p"
proof -
  have 1: "load lw ps st = (None, st') \<longrightarrow> article_t st' = article_t st @ map new_article ps"
    using load_articles [of lw ps st None st'] by auto
  obtain e s where l: "load lw ps st = (e, s)" by (cases "load lw ps st")
  from load_articles [OF l] obtain qs where "article_t s = article_t st @ map new_article qs" by blast
  with l have 2: "\<forall>a \<in> set (article_t (snd (load lw ps st))).
         a \<in> set (article_t st) \<or> publication_year a = 2024"
    by (auto simp: new_article_def)
  have k: "add_keywords lw ks s0 = (e0, s1) \<Longrightarrow> article_t s1 = article_t s0" for ks s0 e0 s1
    by (induction ks arbitrary: s0) (auto simp: insert_keyword_Inr split: sum.splits)
  have 3: "\<forall>a \<in> set (article_t (snd (add_first_article lw p st))).
         a \<in> set (article_t st) \<or> publication_year a = 2024"
  proof (cases "insert_article (new_article p) st")
    case (Inl err)
    then show ?thesis by (simp add: add_first_article_def)
  next
    case (Inr s0)
    obtain e0 s1 where ak: "add_keywords lw (item_keywords p) s0 = (e0, s1)"
      by (cases "add_keywords lw (item_keywords p) s0")
    from k [OF ak] Inr have "article_t s1 = article_t st @ [new_article p]"
      by (simp add: insert_article_Inr)
    with Inr ak show ?thesis by (auto simp: add_first_article_def new_article_def)
  qed
  have 4: "publication_year (new_article p) = 2024" by (simp add: new_article_def)
  have 5: "new_article (p\<lparr>item_publishedDate := d\<rparr>) = new_article p" by (simp add: new_article_def)
  from 1 2 3 4 5 show ?thesis by blast
qed

theorem publication_year_2024_witness:
  "load lower_ascii [paper_a, paper_b] empty_store = (None, example_store)
   \<and> article_t example_store = article_t empty_store @ map new_article [paper_a, paper_b]
   \<and> map publication_year (article_t example_store) = [2024, 2024]
   \<and> article_t (snd (add_first_article lower_ascii paper_a empty_store)) = [new_article paper_a]"
proof -
  have h: "load lower_ascii [paper_a, paper_b] empty_store = (None, example_store)" by code_simp
  have c: "map publication_year (article_t example_store) = [2024, 2024]" by code_simp
  have f: "article_t (snd (add_first_article lower_ascii paper_a empty_store)) = [new_article paper_a]"
    by code_simp
  from h c f publication_year_2024 [of lower_ascii "[paper_a, paper_b]" empty_store example_store]
  show ?thesis by blast
qed


section \<open>Invariants of the reachable stores\<close>

lemma insert_article_references_ok:
  "insert_article a st = Inr st' \<Longrightarrow> references_ok st \<Longrightarrow> references_ok st'"
  by (auto simp: insert_article_Inr references_ok_def)

lemma insert_keyword_references_ok:
  "insert_keyword kw st = Inr (i, st') \<Longrightarrow> references_ok st \<Longrightarrow> references_ok st'"
  by (auto simp: insert_keyword_Inr references_ok_def)

lemma reachable_invariants:
  "reachable lw st \<Longrightarrow> references_ok st \<and> links_unique st \<and> keys_unique st"
proof (induction rule: reachable.induct)
  case reachable_empty
  show ?case using empty_store_ok by blast
next
  case (reachable_load_paper st p st')
  then show ?case
    using load_paper_references_ok load_paper_links_unique load_paper_keys_unique by blast
next
  case (reachable_insert_article st p st')
  then show ?case
    using insert_article_references_ok [of "new_article p" st st']
    by (auto simp: insert_article_Inr links_unique_def keys_unique_def)
next
  case (reachable_insert_keyword st k i st')
  then show ?case
    using insert_keyword_references_ok [of "lw k" st i st'] next_id_fresh [of "map kw_id (keyword_t st)"]
    by (auto simp: insert_keyword_Inr links_unique_def keys_unique_def)
qed

lemma reachable_keywords_lowered:
  assumes "reachable lw st" and idem: "\<forall>s. lw (lw s) = lw s"
  shows "keywords_lowered lw st"
  using assms(1)
proof (induction rule: reachable.induct)
  case reachable_empty
  show ?case by (simp add: keywords_lowered_def empty_store_def)
next
  case (reachable_load_paper st p st')
  then show ?case using load_paper_keywords_lowered idem by blast
next
  case (reachable_insert_article st p st')
  then show ?case by (auto simp: insert_article_Inr keywords_lowered_def)
next
  case (reachable_insert_keyword st k i st')
  then show ?case using idem by (auto simp: insert_keyword_Inr keywords_lowered_def)
qed

lemma reachable_no_authors: "reachable lw st \<Longrightarrow> author_t st = [] \<and> articleauthor_t st = []"
proof (induction rule: reachable.induct)
  case reachable_empty
  show ?case by (simp add: empty_store_def)
next
  case (reachable_load_paper st p st')
  from load_paper_Inr [OF reachable_load_paper.hyps(2)] reachable_load_paper.IH
  show ?case by auto
next
  case (reachable_insert_article st p st')
  then show ?case by (auto simp: insert_article_Inr)
next
  case (reachable_insert_keyword st k i st')
  then show ?case by (auto simp: insert_keyword_Inr)
qed

text \<open>
  Claim C8. In every store the notebooks can reach, each association row names a stored
  article and a stored keyword (or author), and no composite key is stored twice in
  either association table.
\<close>

theorem reachable_referential_integrity:
  assumes "reachable lw st"
  shows "(\<forall>l \<in> set (articlekeyword_t st).
            (\<exists>a \<in> set (article_t st). doi a = article_doi l) \<and>
            (\<exists>k \<in> set (keyword_t st). kw_id k = keyword_id l))
       \<and> (\<forall>l \<in> set (articleauthor_t st).
            (\<exists>a \<in> set (article_t st). doi a = article_doi_aa l) \<and>
            (\<exists>u \<in> set (author_t st). author_id u = author_id_aa l))
       \<and> distinct (map (\<lambda>r. (article_doi r, keyword_id r)) (articlekeyword_t st))
       \<and> distinct (map (\<lambda>r. (article_doi_aa r, author_id_aa r)) (articleauthor_t st))"
proof -
  from reachable_invariants [OF assms] have r: "references_ok st" and l: "links_unique st" by simp_all
  from r have 1: "\<forall>l \<in> set (articlekeyword_t st).
            (\<exists>a \<in> set (article_t st). doi a = article_doi l) \<and>
            (\<exists>k \<in> set (keyword_t st). kw_id k = keyword_id l)"
    by (simp add: references_ok_def image_iff) metis
  from r have 2: "\<forall>l \<in> set (articleauthor_t st).
            (\<exists>a \<in> set (article_t st). doi a = article_doi_aa l) \<and>
            (\<exists>u \<in> set (author_t st). author_id u = author_id_aa l)"
    by (simp add: references_ok_def image_iff) metis
  from 1 2 l show ?thesis unfolding links_unique_def by blast
qed

lemma example_reachable: "reachable lower_ascii example_store"
proof -
  let ?s = "snd (load lower_ascii [paper_a] empty_store)"
  have "load_paper lower_ascii paper_a empty_store = Inr ?s \<and> load_paper lower_ascii paper_b ?s = Inr example_store"
    by code_simp
  then have a: "load_paper lower_ascii paper_a empty_store = Inr ?s"
    and b: "load_paper lower_ascii paper_b ?s = Inr example_store" by blast+
  from reachable_load_paper [OF reachable_load_paper [OF reachable_empty a] b] show ?thesis .
qed

theorem reachable_referential_integrity_witness:
  "reachable lower_ascii example_store
   \<and> \<lparr>article_doi = item_doi paper_b, keyword_id = 3\<rparr> \<in> set (articlekeyword_t example_store)
   \<and> (\<exists>a \<in> set (article_t example_store). doi a = item_doi paper_b)
   \<and> (\<exists>k \<in> set (keyword_t example_store). kw_id k = 3)
   \<and> distinct (map (\<lambda>r. (article_doi r, keyword_id r)) (articlekeyword_t example_store))"
proof -
  have m: "\<lparr>article_doi = item_doi paper_b, keyword_id = 3\<rparr> \<in> set (articlekeyword_t example_store)"
    by (simp add: example_store_eq)
  from reachable_referential_integrity [OF example_reachable] m example_reachable
  show ?thesis by fastforce
qed

section \<open>What a stopped run leaves behind\<close>

lemma load_trace_references_ok:
  "references_ok st \<Longrightarrow> s \<in> set (load_trace lw ps st) \<Longrightarrow> references_ok s"
proof (induction ps arbitrary: st)
  case Nil then show ?case by simp
next
  case (Cons p ps)
  show ?case
  proof (cases "load_paper lw p st")
    case (Inl e)
    with Cons.prems show ?thesis by simp
  next
    case (Inr st1)
    from load_paper_references_ok [OF Inr Cons.prems(1)] have "references_ok st1" .
    with Cons.IH [of st1] Cons.prems Inr show ?thesis by auto
  qed
qed

lemma load_last_trace: "snd (load lw ps st) = last (load_trace lw ps st)"
proof (induction ps arbitrary: st)
  case Nil show ?case by simp
next
  case (Cons p ps)
  have ne: "load_trace lw qs s \<noteq> []" for qs s by (cases qs) simp_all
  show ?case
  proof (cases "load_paper lw p st")
    case (Inl e) then show ?thesis by simp
  next
    case (Inr st1)
    with Cons.IH [of st1] ne [of ps st1] show ?thesis by simp
  qed
qed

lemma add_keywords_references_ok:
  "references_ok st \<Longrightarrow> references_ok (snd (add_keywords lw ks st))"
proof (induction ks arbitrary: st)
  case Nil
  then show ?case by simp
next
  case (Cons k ks)
  show ?case
  proof (cases "insert_keyword (lw k) st")
    case (Inl e)
    with Cons.prems show ?thesis by simp
  next
    case (Inr r)
    obtain i st1 where r: "r = (i, st1)" by (cases r)
    from insert_keyword_references_ok [OF Inr [unfolded r] Cons.prems]
    have "references_ok st1" .
    from Cons.IH [OF this] Inr r show ?thesis by simp
  qed
qed

lemma add_first_article_references_ok:
  "references_ok st \<Longrightarrow> references_ok (snd (add_first_article lw p st))"
proof (cases "insert_article (new_article p) st")
  case (Inl e)
  assume "references_ok st"
  with Inl show ?thesis by (simp add: add_first_article_def)
next
  case (Inr st1)
  assume "references_ok st"
  from insert_article_references_ok [OF Inr this] have "references_ok st1" .
  from add_keywords_references_ok [OF this] Inr show ?thesis
    by (simp add: add_first_article_def)
qed

text \<open>
  Claim C4, as amended. A commit is atomic in the store, so a run that stops at any
  moment leaves the state of the last commit: an element of \<open>load_trace\<close>. Every such
  state has referential integrity, as has the store an exception leaves behind; a paper
  whose commit fails adds nothing. The loader commits an article, its new keywords and
  its association rows together, in one transaction.
\<close>

theorem persisted_store_references_ok:
  assumes "references_ok st"
  shows "(\<forall>s \<in> set (load_trace lw ps st). references_ok s)
       \<and> snd (load lw ps st) = last (load_trace lw ps st)
       \<and> references_ok (snd (load lw ps st))
       \<and> (\<forall>p e. load_paper lw p st = Inl e \<longrightarrow> load_trace lw (p # ps) st = [st])
       \<and> references_ok (snd (add_first_article lw q st))"
proof -
  note 5 = add_first_article_references_ok [OF assms, of lw q]
  have 1: "\<forall>s \<in> set (load_trace lw ps st). references_ok s"
    using load_trace_references_ok [OF assms] by blast
  have ne: "load_trace lw ps st \<noteq> []" by (cases ps) simp_all
  then have "last (load_trace lw ps st) \<in> set (load_trace lw ps st)" by simp
  with 1 load_last_trace [of lw ps st] have 3: "references_ok (snd (load lw ps st))" by simp
  have 4: "\<forall>p e. load_paper lw p st = Inl e \<longrightarrow> load_trace lw (p # ps) st = [st]" by simp
  from 1 load_last_trace [of lw ps st] 3 4 5 show ?thesis by blast
qed

theorem persisted_store_references_ok_witness:
  "references_ok empty_store
   \<and> load_trace lower_ascii [paper_a, paper_b, paper_a] empty_store
       = [empty_store, snd (load lower_ascii [paper_a] empty_store), example_store]
   \<and> load lower_ascii [paper_a, paper_b, paper_a] empty_store = (Some IntegrityError, example_store)
   \<and> references_ok (snd (load lower_ascii [paper_a] empty_store))
   \<and> references_ok example_store"
proof -
  have r: "references_ok empty_store" using empty_store_ok by blast
  have t: "load_trace lower_ascii [paper_a, paper_b, paper_a] empty_store
       = [empty_store, snd (load lower_ascii [paper_a] empty_store), example_store]" by code_simp
  have l: "load lower_ascii [paper_a, paper_b, paper_a] empty_store = (Some IntegrityError, example_store)"
    by code_simp
  from persisted_store_references_ok [OF r, of lower_ascii "[paper_a, paper_b, paper_a]"]
  have "\<forall>s \<in> set (load_trace lower_ascii [paper_a, paper_b, paper_a] empty_store). references_ok s"
    by blast
  then have "\<forall>s \<in> set [empty_store, snd (load lower_ascii [paper_a] empty_store), example_store].
      references_ok s"
    by (simp only: t)
  then have "references_ok (snd (load lower_ascii [paper_a] empty_store)) \<and> references_ok example_store"
    by (simp del: load.simps)
  with r t l show ?thesis by blast
qed

text \<open>
  The claim as it was stated has each parent committed before its association row is
  inserted. The first commit of the loader already holds an association row, and nothing
  was stored before it.
\<close>

theorem association_committed_with_parent:
  "load_trace lower_ascii [paper_a] empty_store = [empty_store, snd (load lower_ascii [paper_a] empty_store)]
   \<and> \<lparr>article_doi = item_doi paper_a, keyword_id = 1\<rparr>
        \<in> set (articlekeyword_t (snd (load lower_ascii [paper_a] empty_store)))
   \<and> article_t empty_store = []
   \<and> keyword_t empty_store = []"
  by code_simp


section \<open>Keyword normalisation and the unique index\<close>

lemma save_keywords_pending_distinct:
  "save_keywords objs st = Inr (ids, st') \<Longrightarrow>
     distinct [kw. Pending kw \<leftarrow> objs] \<and>
     (\<forall>kw. Pending kw \<in> set objs \<longrightarrow> kw \<in> set (map keyword (keyword_t st')))"
proof (induction objs st arbitrary: ids st' rule: save_keywords.induct)
  case (1 st)
  then show ?case by simp
next
  case (2 r objs st)
  from "2.prems"(1) obtain ids' where b: "save_keywords objs st = Inr (ids', st')"
    by (auto split: sum.splits prod.splits)
  from "2.IH" [OF b] show ?case by simp
next
  case (3 kw objs st)
  from "3.prems" obtain i st1 ids' where
    a: "insert_keyword kw st = Inr (i, st1)" and b: "save_keywords objs st1 = Inr (ids', st')"
    by (auto split: sum.splits prod.splits)
  note ih = "3.IH" [OF a refl b]
  from a have in1: "kw \<in> set (map keyword (keyword_t st1))" by (auto simp: insert_keyword_Inr)
  from save_keywords_appends [OF b] obtain news where n: "keyword_t st' = keyword_t st1 @ news"
    by blast
  with in1 have in': "kw \<in> set (map keyword (keyword_t st'))" by auto
  have "Pending kw \<notin> set objs"
  proof
    assume p: "Pending kw \<in> set objs"
    show False using b in1 p
    proof (induction objs st1 arbitrary: ids' st' rule: save_keywords.induct)
      case (1 st) then show ?case by simp
    next
      case (2 r objs st)
      from "2.prems"(1) obtain j where "save_keywords objs st = Inr (j, st')"
        by (auto split: sum.splits prod.splits)
      from "2.IH" [OF this "2.prems"(2)] "2.prems"(3) show ?case by simp
    next
      case (3 kw' objs st)
      from "3.prems"(1) obtain i2 st2 j where
        a2: "insert_keyword kw' st = Inr (i2, st2)" and b2: "save_keywords objs st2 = Inr (j, st')"
        by (auto split: sum.splits prod.splits)
      from a2 "3.prems"(2) have ne: "kw' \<noteq> kw" and in2: "kw \<in> set (map keyword (keyword_t st2))"
        by (auto simp: insert_keyword_Inr)
      with "3.prems"(3) have "Pending kw \<in> set objs" by simp
      from "3.IH" [OF a2 refl b2 in2 this] show ?case .
    qed
  qed
  then have "kw \<notin> set [k. Pending k \<leftarrow> objs]" by auto
  with ih in' show ?case by auto
qed

lemma session_add_commit_error:
  "session_add_commit a objs st = Inl e \<Longrightarrow> e = IntegrityError"
proof -
  have ia: "insert_article a s = Inl e \<Longrightarrow> e = IntegrityError" for s e
    by (auto simp: insert_article_def split: if_splits)
  have sk: "save_keywords os s = Inl e \<Longrightarrow> e = IntegrityError" for os s e
    by (induction os s rule: save_keywords.induct)
       (auto simp: insert_keyword_def Let_def split: sum.splits prod.splits if_splits)
  have lk: "link_keywords d is s = Inl e \<Longrightarrow> e = IntegrityError" for d "is" s e
    by (induction "is" arbitrary: s)
       (auto simp: insert_articlekeyword_def split: sum.splits if_splits)
  assume "session_add_commit a objs st = Inl e"
  then show ?thesis
    using ia sk lk by (auto simp: session_add_commit_def split: sum.splits prod.splits)
qed

text \<open>
  A paper that carries a keyword text twice, up to case, while no row with that text is
  stored: both lookups find nothing, two pending objects with the one text reach the
  flush, and the commit fails on the unique index.
\<close>

lemma load_paper_repeated_new_keyword:
  assumes ku: "distinct (map keyword (keyword_t st))"
    and ks: "item_keywords p = pre @ k1 # mid @ k2 # post"
    and eq: "lw k1 = lw k2"
    and new: "lw k1 \<notin> set (map keyword (keyword_t st))"
  shows "load_paper lw p st = Inl IntegrityError"
proof -
  from lookup_keywords_total [OF ku] obtain objs where
    lk: "lookup_keywords lw (item_keywords p) st = Inr objs" by blast
  define P where "P = (\<lambda>k obj.
      (\<exists>r. obj = Persistent r \<and> r \<in> set (keyword_t st) \<and> keyword r = lw k) \<or>
      (obj = Pending (lw (lw k)) \<and> lw k \<notin> set (map keyword (keyword_t st))))"
  from lookup_keywords_Inr [OF lk] have "list_all2 P (item_keywords p) objs"
    unfolding P_def .
  then have "list_all2 P (pre @ k1 # mid @ k2 # post) objs" by (simp only: ks)
  then obtain a r1 where r1: "objs = a @ r1" "list_all2 P (k1 # mid @ k2 # post) r1"
    by (auto simp: list_all2_append1)
  from r1(2) obtain o1 r2 where r2: "r1 = o1 # r2" "P k1 o1" "list_all2 P (mid @ k2 # post) r2"
    by (auto simp: list_all2_Cons1)
  from r2(3) obtain b r3 where r3: "r2 = b @ r3" "list_all2 P (k2 # post) r3"
    by (auto simp: list_all2_append1)
  from r3(2) obtain o2 c where r4: "r3 = o2 # c" "P k2 o2"
    by (auto simp: list_all2_Cons1)
  from r1(1) r2(1) r3(1) r4(1) have objs: "objs = a @ o1 # b @ o2 # c" by simp
  have pend: "ob = Pending (lw (lw k1))" if "P k ob" "lw k = lw k1" for k ob
  proof -
    from that(1) consider r where "ob = Persistent r" "r \<in> set (keyword_t st)" "keyword r = lw k"
      | "ob = Pending (lw (lw k))" unfolding P_def by blast
    then show ?thesis
    proof cases
      case 1
      from 1(2) have "keyword r \<in> keyword ` set (keyword_t st)" by (rule imageI)
      with 1(3) that(2) new show ?thesis by simp
    next
      case 2
      with that(2) show ?thesis by simp
    qed
  qed
  from objs pend [OF r2(2) refl] pend [OF r4(2) eq [symmetric]]
  have o: "objs = a @ Pending (lw (lw k1)) # b @ Pending (lw (lw k1)) # c" by simp
  have nd: "\<not> distinct [kw. Pending kw \<leftarrow> objs]" unfolding o by simp
  have "session_add_commit (new_article p) objs st \<noteq> Inr s" for s
  proof
    assume "session_add_commit (new_article p) objs st = Inr s"
    then obtain st1 ids st2 where "save_keywords objs st1 = Inr (ids, st2)"
      by (auto simp: session_add_commit_def split: sum.splits prod.splits)
    from save_keywords_pending_distinct [OF this] nd show False by blast
  qed
  then obtain e where "session_add_commit (new_article p) objs st = Inl e"
    by (cases "session_add_commit (new_article p) objs st") auto
  with session_add_commit_error [OF this] lk show ?thesis by (simp add: load_paper_def)
qed

text \<open>
  Claim C3 has two casings of one keyword end in a single stored row. For the paper
  whose keywords are \<open>AI\<close> and \<open>ai\<close> the loader raises \<open>IntegrityError\<close> instead and the
  transaction of that paper is rolled back: no keyword row is stored. The two texts are
  ASCII, where \<open>str.lower\<close> is \<open>lower_ascii\<close>; the lemma above gives the same for every
  lower-casing that maps the two spellings to one text.
\<close>

theorem same_paper_casings_rejected:
  "load lower_ascii [paper_b\<lparr>item_keywords := [''AI'', ''ai'']\<rparr>] empty_store
     = (Some IntegrityError, empty_store)"
  by code_simp

text \<open>In two different papers the two spellings do meet in one row.\<close>

lemma two_papers_casings:
  "keyword_t (snd (load lower_ascii [paper_a\<lparr>item_keywords := [''AI'']\<rparr>, paper_b\<lparr>item_keywords := [''ai'']\<rparr>] empty_store))
     = [\<lparr>kw_id = 1, keyword = ''ai''\<rparr>]"
  by code_simp


section \<open>The association insert of the raw-SQL notebook\<close>

lemma associate_keywords_Inr:
  "associate_keywords d kws st = Inr st' \<Longrightarrow>
     \<exists>ids. list_all2 (\<lambda>kw i. fetchone (map kw_id (select_keyword kw st)) = Some i) kws ids
          \<and> st' = st\<lparr>articlekeyword_t :=
                      articlekeyword_t st @ map (\<lambda>i. \<lparr>article_doi = d, keyword_id = i\<rparr>) ids\<rparr>
          \<and> (\<forall>i \<in> set ids. \<not> linked st d i) \<and> distinct ids"
proof (induction kws arbitrary: st)
  case Nil
  then have "list_all2 (\<lambda>kw i. fetchone (map kw_id (select_keyword kw st)) = Some i) [] []
          \<and> st' = st\<lparr>articlekeyword_t :=
                      articlekeyword_t st @ map (\<lambda>i. \<lparr>article_doi = d, keyword_id = i\<rparr>) []\<rparr>
          \<and> (\<forall>i \<in> set []. \<not> linked st d i) \<and> distinct ([] :: int list)" by simp
  then show ?case by blast
next
  case (Cons kw kws)
  from Cons.prems obtain i where f: "fetchone (map kw_id (select_keyword kw st)) = Some i"
    by (auto split: option.splits)
  let ?st1 = "st\<lparr>articlekeyword_t := articlekeyword_t st @ [\<lparr>article_doi = d, keyword_id = i\<rparr>]\<rparr>"
  from Cons.prems f have nl: "\<not> linked st d i" and r: "associate_keywords d kws ?st1 = Inr st'"
    by (auto simp: insert_articlekeyword_linked split: if_splits)
  have sel: "select_keyword k ?st1 = select_keyword k st" for k by (simp add: select_keyword_def)
  have lk: "linked ?st1 d j \<longleftrightarrow> linked st d j \<or> j = i" for j by (auto simp: linked_def)
  from Cons.IH [OF r] obtain ids where
    a: "list_all2 (\<lambda>kw i. fetchone (map kw_id (select_keyword kw st)) = Some i) kws ids"
    and b: "st' = ?st1\<lparr>articlekeyword_t :=
                      articlekeyword_t ?st1 @ map (\<lambda>i. \<lparr>article_doi = d, keyword_id = i\<rparr>) ids\<rparr>"
    and c: "\<forall>j \<in> set ids. \<not> linked ?st1 d j" and e: "distinct ids"
    unfolding sel by blast
  from c lk have c1: "\<forall>j \<in> set ids. \<not> linked st d j" and c2: "i \<notin> set ids" by blast+
  have "list_all2 (\<lambda>kw i. fetchone (map kw_id (select_keyword kw st)) = Some i) (kw # kws) (i # ids)
          \<and> st' = st\<lparr>articlekeyword_t :=
                      articlekeyword_t st @ map (\<lambda>i. \<lparr>article_doi = d, keyword_id = i\<rparr>) (i # ids)\<rparr>
          \<and> (\<forall>j \<in> set (i # ids). \<not> linked st d j) \<and> distinct (i # ids)"
    using a f b nl c1 c2 e by simp
  then show ?case by blast
qed

lemma associate_keywords_duplicate:
  "\<forall>kw \<in> set kws. fetchone (map kw_id (select_keyword kw st)) \<noteq> None \<Longrightarrow>
   kw0 \<in> set kws \<Longrightarrow> fetchone (map kw_id (select_keyword kw0 st)) = Some i0 \<Longrightarrow>
   linked st d i0 \<Longrightarrow> associate_keywords d kws st = Inl IntegrityError"
proof (induction kws arbitrary: st)
  case Nil
  then show ?case by simp
next
  case (Cons kw kws)
  from Cons.prems(1) obtain i where f: "fetchone (map kw_id (select_keyword kw st)) = Some i"
    by auto
  show ?case
  proof (cases "linked st d i")
    case True
    with f show ?thesis by (simp add: insert_articlekeyword_linked)
  next
    case False
    let ?st1 = "st\<lparr>articlekeyword_t := articlekeyword_t st @ [\<lparr>article_doi = d, keyword_id = i\<rparr>]\<rparr>"
    have sel: "select_keyword k ?st1 = select_keyword k st" for k by (simp add: select_keyword_def)
    from False f Cons.prems(3,4) have "kw0 \<noteq> kw" by auto
    with Cons.prems(2) have in0: "kw0 \<in> set kws" by simp
    from Cons.prems(4) have l1: "linked ?st1 d i0" by (auto simp: linked_def)
    from Cons.prems(1) have all1: "\<forall>k \<in> set kws. fetchone (map kw_id (select_keyword k ?st1)) \<noteq> None"
      unfolding sel by simp
    from Cons.prems(3) have f1: "fetchone (map kw_id (select_keyword kw0 ?st1)) = Some i0"
      unfolding sel .
    from Cons.IH [OF all1 in0 f1 l1] False f show ?thesis
      by (simp add: insert_articlekeyword_linked)
  qed
qed

text \<open>
  Claim C5, as amended. When the association loop succeeds it has found an id for every
  keyword and has appended one row per keyword, none of whose composite keys was stored
  before and no two of which are equal. When every keyword is found and one of them is
  already linked to the article, the loop raises \<open>IntegrityError\<close>: the INSERT is a plain
  one and nothing catches the error.
\<close>

theorem association_plain_insert:
  "(associate_keywords d kws st = Inr st' \<longrightarrow>
     (\<exists>ids. list_all2 (\<lambda>kw i. fetchone (map kw_id (select_keyword kw st)) = Some i) kws ids
          \<and> st' = st\<lparr>articlekeyword_t :=
                      articlekeyword_t st @ map (\<lambda>i. \<lparr>article_doi = d, keyword_id = i\<rparr>) ids\<rparr>
          \<and> (\<forall>i \<in> set ids. \<not> linked st d i) \<and> distinct ids))
   \<and> ((\<forall>kw \<in> set kws. fetchone (map kw_id (select_keyword kw st)) \<noteq> None) \<and>
       (\<exists>kw \<in> set kws. \<exists>i. fetchone (map kw_id (select_keyword kw st)) = Some i \<and> linked st d i)
       \<longrightarrow> associate_keywords d kws st = Inl IntegrityError)
   \<and> (fetchone (map kw_id (select_keyword kw st)) = Some i \<and> \<not> linked st d i \<longrightarrow>
        associate_keywords d [kw] st =
          Inr (st\<lparr>articlekeyword_t :=
                  articlekeyword_t st @ [\<lparr>article_doi = d, keyword_id = i\<rparr>]\<rparr>))"
proof -
  have 1: "associate_keywords d kws st = Inr st' \<longrightarrow>
     (\<exists>ids. list_all2 (\<lambda>kw i. fetchone (map kw_id (select_keyword kw st)) = Some i) kws ids
          \<and> st' = st\<lparr>articlekeyword_t :=
                      articlekeyword_t st @ map (\<lambda>i. \<lparr>article_doi = d, keyword_id = i\<rparr>) ids\<rparr>
          \<and> (\<forall>i \<in> set ids. \<not> linked st d i) \<and> distinct ids)"
    using associate_keywords_Inr by blast
  have 2: "(\<forall>kw \<in> set kws. fetchone (map kw_id (select_keyword kw st)) \<noteq> None) \<and>
       (\<exists>kw \<in> set kws. \<exists>i. fetchone (map kw_id (select_keyword kw st)) = Some i \<and> linked st d i)
       \<longrightarrow> associate_keywords d kws st = Inl IntegrityError"
    using associate_keywords_duplicate by blast
  have 3: "fetchone (map kw_id (select_keyword kw st)) = Some i \<and> \<not> linked st d i \<longrightarrow>
        associate_keywords d [kw] st =
          Inr (st\<lparr>articlekeyword_t :=
                  articlekeyword_t st @ [\<lparr>article_doi = d, keyword_id = i\<rparr>]\<rparr>)"
    by (simp add: insert_articlekeyword_linked)
  from 1 2 3 show ?thesis by blast
qed

theorem association_plain_insert_witness:
  "fetchone (map kw_id (select_keyword ''database'' example_store)) = Some 3
   \<and> \<not> linked example_store (item_doi paper_a) 3
   \<and> associate_keywords (item_doi paper_a) [''database''] example_store = Inr example_linked
   \<and> linked example_linked (item_doi paper_a) 3
   \<and> associate_keywords (item_doi paper_a) [''drug discovery'', ''database''] example_store
       = Inl IntegrityError"
proof -
  have h: "fetchone (map kw_id (select_keyword ''database'' example_store)) = Some 3"
    by code_simp
  have n: "\<not> linked example_store (item_doi paper_a) 3" by code_simp
  have l: "linked example_linked (item_doi paper_a) 3" by code_simp
  have a: "\<forall>kw \<in> set [''drug discovery'', ''database''].
      fetchone (map kw_id (select_keyword kw example_store)) \<noteq> None" by code_simp
  have b: "fetchone (map kw_id (select_keyword ''drug discovery'' example_store)) = Some 2
     \<and> linked example_store (item_doi paper_a) 2" by code_simp
  then have c: "\<exists>kw \<in> set [''drug discovery'', ''database'']. \<exists>i.
      fetchone (map kw_id (select_keyword kw example_store)) = Some i
      \<and> linked example_store (item_doi paper_a) i" by (metis list.set_intros(1))
  note t1 = association_plain_insert [of "item_doi paper_a" "[''database'']" example_store example_linked
      "''database''" 3]
  note t2 = association_plain_insert [of "item_doi paper_a" "[''drug discovery'', ''database'']"
      example_store example_linked "''database''" 3]
  from t1 h n have x: "associate_keywords (item_doi paper_a) [''database''] example_store = Inr example_linked"
    by (simp add: example_linked_def)
  from t2 a c have y: "associate_keywords (item_doi paper_a) [''drug discovery'', ''database''] example_store
       = Inl IntegrityError" by blast
  from h n x l y show ?thesis by blast
qed

text \<open>
  The claim as it was stated has the duplicate ignored. Running the association step a
  second time for the same article and keyword raises.
\<close>

theorem duplicate_association_raises:
  "associate_keywords (item_doi paper_a) [''database''] example_store = Inr example_linked
   \<and> associate_keywords (item_doi paper_a) [''database''] example_linked = Inl IntegrityError"
  by code_simp

section \<open>Lookup or create\<close>

lemma add_keywords_authors:
  "author_t (snd (add_keywords lw ks st)) = author_t st \<and>
   articleauthor_t (snd (add_keywords lw ks st)) = articleauthor_t st"
proof (induction ks arbitrary: st)
  case Nil
  show ?case by simp
next
  case (Cons k ks)
  show ?case
  proof (cases "insert_keyword (lw k) st")
    case (Inl e)
    then show ?thesis by simp
  next
    case (Inr r)
    obtain i st1 where r: "r = (i, st1)" by (cases r)
    with Inr have "author_t st1 = author_t st \<and> articleauthor_t st1 = articleauthor_t st"
      by (auto simp: insert_keyword_Inr)
    with Cons.IH [of st1] Inr r show ?thesis by simp
  qed
qed

lemma add_first_article_authors:
  "author_t (snd (add_first_article lw p st)) = author_t st \<and>
   articleauthor_t (snd (add_first_article lw p st)) = articleauthor_t st"
proof (cases "insert_article (new_article p) st")
  case (Inl e)
  then show ?thesis by (simp add: add_first_article_def)
next
  case (Inr st1)
  then have "author_t st1 = author_t st \<and> articleauthor_t st1 = articleauthor_t st"
    by (auto simp: insert_article_Inr)
  with add_keywords_authors [of lw "item_keywords p" st1] Inr show ?thesis
    by (simp add: add_first_article_def)
qed

lemma associate_keywords_authors:
  "associate_keywords d kws st = Inr st' \<Longrightarrow>
     author_t st' = author_t st \<and> articleauthor_t st' = articleauthor_t st"
  using associate_keywords_Inr [of d kws st st'] by auto

text \<open>
  Claim C2, as amended. The loader stores a paper whose doi is new and whose lower-cased
  keywords differ, whether their rows are stored or not. When it stores a paper, the
  rows of the keyword table are kept and rows are appended: a keyword whose lower-cased
  text is stored keeps its row and the article is linked to that row's id; a keyword
  whose text is not stored gets one row, with the lower-cased text and an id no stored
  row has, and the article is linked to it; every row added carries the lower-cased
  text of a keyword of the paper; keyword texts stay unique. No insert code writes an
  author: the loader, the insert cell and the association loop leave both author tables
  as they were, and they are empty in every reachable store.
\<close>

theorem keyword_lookup_or_create:
  assumes "keys_unique st"
  shows "(references_ok st \<and> item_doi p \<notin> set (map doi (article_t st)) \<and>
          distinct (map lw (item_keywords p)) \<and> (\<forall>s. lw (lw s) = lw s)
            \<longrightarrow> (\<exists>st'. load_paper lw p st = Inr st'))
       \<and> (\<forall>st'. load_paper lw p st = Inr st' \<longrightarrow>
            (\<exists>news. keyword_t st' = keyword_t st @ news)
          \<and> distinct (map keyword (keyword_t st'))
          \<and> author_t st' = author_t st \<and> articleauthor_t st' = articleauthor_t st
          \<and> (\<forall>k \<in> set (item_keywords p).
               (\<forall>r \<in> set (keyword_t st). keyword r = lw k \<longrightarrow>
                  r \<in> set (keyword_t st') \<and> linked st' (item_doi p) (kw_id r)) \<and>
               (lw k \<notin> set (map keyword (keyword_t st)) \<longrightarrow>
                  (\<exists>r \<in> set (keyword_t st'). keyword r = lw (lw k) \<and>
                     kw_id r \<notin> set (map kw_id (keyword_t st)) \<and>
                     linked st' (item_doi p) (kw_id r))))
          \<and> (\<forall>r \<in> set (keyword_t st').
               r \<in> set (keyword_t st) \<or>
               keyword r \<in> (\<lambda>k. lw (lw k)) ` set (item_keywords p)))
       \<and> author_t (snd (add_first_article lw q st)) = author_t st
       \<and> articleauthor_t (snd (add_first_article lw q st)) = articleauthor_t st
       \<and> (\<forall>d kws s'. associate_keywords d kws st = Inr s' \<longrightarrow>
            author_t s' = author_t st \<and> articleauthor_t s' = articleauthor_t st)
       \<and> (\<forall>s. reachable lw s \<longrightarrow> author_t s = [] \<and> articleauthor_t s = [])"
proof -
  have A: "references_ok st \<and> item_doi p \<notin> set (map doi (article_t st)) \<and>
          distinct (map lw (item_keywords p)) \<and> (\<forall>s. lw (lw s) = lw s)
            \<longrightarrow> (\<exists>st'. load_paper lw p st = Inr st')"
    using load_paper_succeeds [OF assms, of p lw] by blast
  have B: "(\<exists>news. keyword_t st' = keyword_t st @ news)
          \<and> distinct (map keyword (keyword_t st'))
          \<and> author_t st' = author_t st \<and> articleauthor_t st' = articleauthor_t st
          \<and> (\<forall>k \<in> set (item_keywords p).
               (\<forall>r \<in> set (keyword_t st). keyword r = lw k \<longrightarrow>
                  r \<in> set (keyword_t st') \<and> linked st' (item_doi p) (kw_id r)) \<and>
               (lw k \<notin> set (map keyword (keyword_t st)) \<longrightarrow>
                  (\<exists>r \<in> set (keyword_t st'). keyword r = lw (lw k) \<and>
                     kw_id r \<notin> set (map kw_id (keyword_t st)) \<and>
                     linked st' (item_doi p) (kw_id r))))
          \<and> (\<forall>r \<in> set (keyword_t st').
               r \<in> set (keyword_t st) \<or>
               keyword r \<in> (\<lambda>k. lw (lw k)) ` set (item_keywords p))"
    if lp: "load_paper lw p st = Inr st'" for st'
  proof -
    from load_paper_Inr [OF lp] obtain ids news where
      au: "author_t st' = author_t st" and aa: "articleauthor_t st' = articleauthor_t st"
      and k: "keyword_t st' = keyword_t st @ news"
      and l: "articlekeyword_t st' =
         articlekeyword_t st @ map (\<lambda>i. \<lparr>article_doi = item_doi p, keyword_id = i\<rparr>) ids"
      and la: "list_all2 (\<lambda>k i. \<exists>r \<in> set (keyword_t st'). kw_id r = i \<and>
           ((r \<in> set (keyword_t st) \<and> keyword r = lw k) \<or>
            (i \<notin> set (map kw_id (keyword_t st)) \<and> keyword r = lw (lw k) \<and>
             lw k \<notin> set (map keyword (keyword_t st)))))
         (item_keywords p) ids"
      by blast
    from assms have dt0: "distinct (map keyword (keyword_t st))" by (simp add: keys_unique_def)
    from load_paper_keys_unique [OF lp assms] have
      dt: "distinct (map keyword (keyword_t st'))" by (simp add: keys_unique_def)
    note lnk = linked_load_paper [OF l]
    have each: "\<exists>r \<in> set (keyword_t st'). linked st' (item_doi p) (kw_id r) \<and>
           ((r \<in> set (keyword_t st) \<and> keyword r = lw x) \<or>
            (kw_id r \<notin> set (map kw_id (keyword_t st)) \<and> keyword r = lw (lw x) \<and>
             lw x \<notin> set (map keyword (keyword_t st))))"
      if "x \<in> set (item_keywords p)" for x
    proof -
      from list_all2_left [OF la that] obtain i r where
        i: "i \<in> set ids" and r: "r \<in> set (keyword_t st')" "kw_id r = i"
        and c: "(r \<in> set (keyword_t st) \<and> keyword r = lw x) \<or>
            (i \<notin> set (map kw_id (keyword_t st)) \<and> keyword r = lw (lw x) \<and>
             lw x \<notin> set (map keyword (keyword_t st)))" by blast
      from i r(2) lnk have "linked st' (item_doi p) (kw_id r)" by simp
      with r c show ?thesis by blast
    qed
    have present: "r \<in> set (keyword_t st') \<and> linked st' (item_doi p) (kw_id r)"
      if "x \<in> set (item_keywords p)" "r \<in> set (keyword_t st)" "keyword r = lw x" for x r
    proof -
      from that(2) have "keyword r \<in> keyword ` set (keyword_t st)" by (rule imageI)
      with that(3) have st: "lw x \<in> set (map keyword (keyword_t st))" by simp
      with each [OF that(1)] obtain r' where
        r': "linked st' (item_doi p) (kw_id r')" "r' \<in> set (keyword_t st)" "keyword r' = lw x"
        by blast
      from distinct_map_eq [OF dt0 r'(2) that(2)] r'(3) that(3) have "r' = r" by simp
      moreover from that(2) k have "r \<in> set (keyword_t st')" by simp
      ultimately show ?thesis using r'(1) by simp
    qed
    have absent: "\<exists>r \<in> set (keyword_t st'). keyword r = lw (lw x) \<and>
                    kw_id r \<notin> set (map kw_id (keyword_t st)) \<and>
                    linked st' (item_doi p) (kw_id r)"
      if "x \<in> set (item_keywords p)" "lw x \<notin> set (map keyword (keyword_t st))" for x
    proof -
      from each [OF that(1)] obtain r where
        r: "r \<in> set (keyword_t st')" "linked st' (item_doi p) (kw_id r)"
        and c: "(r \<in> set (keyword_t st) \<and> keyword r = lw x) \<or>
            (kw_id r \<notin> set (map kw_id (keyword_t st)) \<and> keyword r = lw (lw x) \<and>
             lw x \<notin> set (map keyword (keyword_t st)))" by blast
      have "\<not> (r \<in> set (keyword_t st) \<and> keyword r = lw x)"
      proof
        assume h: "r \<in> set (keyword_t st) \<and> keyword r = lw x"
        then have "r \<in> set (keyword_t st)" by (rule conjunct1)
        then have "keyword r \<in> keyword ` set (keyword_t st)" by (rule imageI)
        with h that(2) show False by simp
      qed
      with c r show ?thesis by blast
    qed
    have new: "\<forall>r \<in> set (keyword_t st').
              r \<in> set (keyword_t st) \<or>
              keyword r \<in> (\<lambda>k. lw (lw k)) ` set (item_keywords p)"
      using load_paper_new_rows [OF lp] by blast
    from k have "\<exists>news. keyword_t st' = keyword_t st @ news" by blast
    with dt au aa present absent new show ?thesis by blast
  qed
  note C = add_first_article_authors [of lw q st]
  have D: "\<forall>d kws s'. associate_keywords d kws st = Inr s' \<longrightarrow>
            author_t s' = author_t st \<and> articleauthor_t s' = articleauthor_t st"
    using associate_keywords_authors by blast
  have E: "\<forall>s. reachable lw s \<longrightarrow> author_t s = [] \<and> articleauthor_t s = []"
    using reachable_no_authors by blast
  from B have B': "\<forall>st'. load_paper lw p st = Inr st' \<longrightarrow>
            (\<exists>news. keyword_t st' = keyword_t st @ news)
          \<and> distinct (map keyword (keyword_t st'))
          \<and> author_t st' = author_t st \<and> articleauthor_t st' = articleauthor_t st
          \<and> (\<forall>k \<in> set (item_keywords p).
               (\<forall>r \<in> set (keyword_t st). keyword r = lw k \<longrightarrow>
                  r \<in> set (keyword_t st') \<and> linked st' (item_doi p) (kw_id r)) \<and>
               (lw k \<notin> set (map keyword (keyword_t st)) \<longrightarrow>
                  (\<exists>r \<in> set (keyword_t st'). keyword r = lw (lw k) \<and>
                     kw_id r \<notin> set (map kw_id (keyword_t st)) \<and>
                     linked st' (item_doi p) (kw_id r))))
          \<and> (\<forall>r \<in> set (keyword_t st').
               r \<in> set (keyword_t st) \<or>
               keyword r \<in> (\<lambda>k. lw (lw k)) ` set (item_keywords p))" by blast
  from A B' C D E show ?thesis by blast
qed

theorem keyword_lookup_or_create_witness:
  "keys_unique (snd (load lower_ascii [paper_a] empty_store))
   \<and> load_paper lower_ascii (paper_b\<lparr>item_keywords := [''DRUG discovery'', ''Database'']\<rparr>)
        (snd (load lower_ascii [paper_a] empty_store))
      = Inr (example_store\<lparr>articlekeyword_t :=
               [\<lparr>article_doi = item_doi paper_a, keyword_id = 1\<rparr>,
                \<lparr>article_doi = item_doi paper_a, keyword_id = 2\<rparr>,
                \<lparr>article_doi = item_doi paper_b, keyword_id = 2\<rparr>,
                \<lparr>article_doi = item_doi paper_b, keyword_id = 3\<rparr>]\<rparr>)
   \<and> keyword_t (snd (load lower_ascii [paper_a] empty_store))
       = [\<lparr>kw_id = 1, keyword = ''chemoinformatics''\<rparr>, \<lparr>kw_id = 2, keyword = ''drug discovery''\<rparr>]
   \<and> distinct (map keyword (keyword_t example_store))
   \<and> author_t example_store = author_t (snd (load lower_ascii [paper_a] empty_store))
   \<and> author_t (snd (add_first_article lower_ascii paper_b (snd (load lower_ascii [paper_a] empty_store))))
       = author_t (snd (load lower_ascii [paper_a] empty_store))"
proof -
  let ?s = "snd (load lower_ascii [paper_a] empty_store)"
  let ?p = "paper_b\<lparr>item_keywords := [''DRUG discovery'', ''Database'']\<rparr>"
  let ?s' = "example_store\<lparr>articlekeyword_t :=
               [\<lparr>article_doi = item_doi paper_a, keyword_id = 1\<rparr>,
                \<lparr>article_doi = item_doi paper_a, keyword_id = 2\<rparr>,
                \<lparr>article_doi = item_doi paper_b, keyword_id = 2\<rparr>,
                \<lparr>article_doi = item_doi paper_b, keyword_id = 3\<rparr>]\<rparr>"
  have "load_paper lower_ascii paper_a empty_store = Inr ?s" by code_simp
  from load_paper_keys_unique [OF this] empty_store_ok have ku: "keys_unique ?s" by blast
  have lp: "load_paper lower_ascii ?p ?s = Inr ?s'" by code_simp
  have kt: "keyword_t ?s
       = [\<lparr>kw_id = 1, keyword = ''chemoinformatics''\<rparr>, \<lparr>kw_id = 2, keyword = ''drug discovery''\<rparr>]"
    by code_simp
  note t = keyword_lookup_or_create [OF ku, of ?p lower_ascii paper_b]
  from t lp have "distinct (map keyword (keyword_t ?s'))" "author_t ?s' = author_t ?s"
    by blast+
  moreover from t have "author_t (snd (add_first_article lower_ascii paper_b ?s)) = author_t ?s"
    by blast
  ultimately show ?thesis using ku lp kt by simp
qed

text \<open>
  The claim as it was stated covers author records. The loader reads no author: a paper
  with one author is stored and both author tables stay empty.
\<close>

theorem authors_never_stored:
  "load lower_ascii [paper_a] empty_store = (None, snd (load lower_ascii [paper_a] empty_store))
   \<and> item_authors paper_a = [\<lparr>firstName = ''Dimitri'', lastName = ''Abrahamsson'',
                               institutions = [''New York University'']\<rparr>]
   \<and> author_t (snd (load lower_ascii [paper_a] empty_store)) = []
   \<and> articleauthor_t (snd (load lower_ascii [paper_a] empty_store)) = []"
  by code_simp

end
